theory Spec2Isabelle
  imports Complex_Main "HOL-Library.Char_ord" "HOL-Library.List_Lexorder"
begin

section \<open>Shared data model\<close>

text \<open>
  The registry crawler \<^verbatim>\<open>RemoteScanner\<close> of \<^verbatim>\<open>packages/core/src/remote.ts\<close>, its
  cache-enabled variant (the second \<^verbatim>\<open>RemoteScanner\<close> among the sources, with
  \<^verbatim>\<open>cacheDir\<close>, \<^verbatim>\<open>_initCache\<close> and \<^verbatim>\<open>searchCache\<close>), and the conflict and scoring
  passes of \<^verbatim>\<open>packages/scripts/src/sync.ts\<close>. Where the two scanners differ, the
  definition of the cache-enabled one carries the suffix \<open>_cached\<close>.

  A JavaScript exception is a value of type \<open>error\<close>; a call that may throw returns an
  \<open>outcome\<close>. Documents received from the registry have the shape their types declare:
  a search result has its \<^verbatim>\<open>objects\<close> and \<^verbatim>\<open>total\<close>, a metadata document its
  \<^verbatim>\<open>versions\<close>, \<^verbatim>\<open>time\<close> and \<^verbatim>\<open>dist-tags\<close>.
\<close>

datatype error =
    RequestFailed string
  | TypeError
  | ReferenceError
  | CallbackFailed string

datatype 'a outcome = Return 'a | Throw error

text \<open>
  A version string is kept in the parsed form the \<^verbatim>\<open>semver\<close> package gives it: three
  numbers and the prerelease identifiers, each numeric or alphanumeric.
\<close>

datatype ident = Num nat | Alnum string

record SemVer =
  major :: nat
  minor :: nat
  patch :: nat
  prerelease :: "ident list"

record Ecosystem =
  eco_name :: string
  eco_keywords :: "string list"
  eco_property :: string

record Manifest =
  man_insecure :: bool
  man_category :: "string option"
  man_ecosystem :: "string option"

record RemotePackage =
  version :: SemVer
  deprecated :: "string option"
  author :: "string option"
  rp_keywords :: "string list option"

record Package =
  name :: string
  date :: string
  pkg_contributors :: "string list option"
  pkg_keywords :: "string list"

record SearchObject =
  package :: Package
  ignored :: bool
  verified :: bool
  ecosystem :: "string option"
  shortname :: "string option"
  manifest :: "Manifest option"
  insecure :: "bool option"
  category :: "string option"
  createdAt :: "string option"
  updatedAt :: "string option"

record SearchResult =
  objects :: "SearchObject list"
  total :: int
  res_version :: "int option"

record CollectOptions =
  step :: "int option"
  margin :: "int option"
  timeout :: "int option"

text \<open>
  The requests the scanner sends, each resolved against \<^verbatim>\<open>options.registry\<close>:
  \<open>SearchPage text size from timeout\<close> is
  \<^verbatim>\<open>/-/v1/search?text=<text>&size=<size>&from=<from>\<close>, and \<open>Get path\<close> is the
  metadata request for the literal path.
\<close>

datatype request =
    SearchPage string int int int
  | Get string

section \<open>Paginated search\<close>

text \<open>
  \<^verbatim>\<open>Dict<SearchObject>\<close> keyed by package name: an association list in insertion
  order; assigning to a key that is present replaces the value in place. (JavaScript
  lists keys that are array indices first; only the number of values matters below.)
\<close>

type_synonym cache = "(string \<times> SearchObject) list"

fun dict_set :: "cache \<Rightarrow> string \<Rightarrow> SearchObject \<Rightarrow> cache" where
  "dict_set [] k v = [(k, v)]"
| "dict_set ((k', v') # kvs) k v =
     (if k' = k then (k, v) # kvs else (k', v') # dict_set kvs k v)"

definition dict_values :: "cache \<Rightarrow> SearchObject list" where
  "dict_values c = map snd c"

fun join :: "string \<Rightarrow> string list \<Rightarrow> string" where
  "join sep [] = []"
| "join sep [x] = x"
| "join sep (x # y # ys) = x @ sep @ join sep (y # ys)"

text \<open>
  The state one \<^verbatim>\<open>search\<close> call works on: its local \<open>cache\<close>, the
  requests sent so far, and the scanner's \<^verbatim>\<open>version\<close> field that
  \<^verbatim>\<open>_search\<close> overwrites. The registry's answer to the k-th request of the call is
  \<open>reply k\<close>.
\<close>

record search_state =
  cache :: cache
  sent :: "request list"
  scanner_version :: "int option"

type_synonym replies = "nat \<Rightarrow> request \<Rightarrow> SearchResult outcome"

definition cfg_step :: "CollectOptions \<Rightarrow> int" where
  "cfg_step config = (case step config of None \<Rightarrow> 250 | Some s \<Rightarrow> s)"

definition cfg_margin :: "CollectOptions \<Rightarrow> int" where
  "cfg_margin config = (case margin config of None \<Rightarrow> 25 | Some m \<Rightarrow> m)"

definition cfg_timeout :: "CollectOptions \<Rightarrow> int" where
  "cfg_timeout config = (case timeout config of None \<Rightarrow> 30000 | Some t \<Rightarrow> t)"

text \<open>
  \<^verbatim>\<open>_search(eco, cache, offset, config)\<close>: one page request; returns the reported
  total. The cache-enabled variant reads the same three settings from
  \<^verbatim>\<open>options.collect\<close> and does not assign \<^verbatim>\<open>this.version\<close>.
\<close>

definition search_page ::
  "replies \<Rightarrow> CollectOptions \<Rightarrow> Ecosystem \<Rightarrow> search_state \<Rightarrow> int \<Rightarrow> search_state \<times> int outcome" where
  "search_page reply config eco st offset =
     (let req = SearchPage (join ''+'' (eco_keywords eco)) (cfg_step config) offset (cfg_timeout config);
          st1 = st\<lparr>sent := sent st @ [req]\<rparr>
      in case reply (length (sent st)) req of
           Throw e \<Rightarrow> (st1, Throw e)
         | Return result \<Rightarrow>
             (st1\<lparr>scanner_version := res_version result,
                  cache := fold (\<lambda>object c. dict_set c (name (package object)) object)
                             (objects result) (cache st1)\<rparr>,
              Return (total result)))"

text \<open>
  The \<^verbatim>\<open>for\<close> loop of \<^verbatim>\<open>search\<close>. Each test of the loop condition takes one
  unit of fuel; \<open>None\<close> means the fuel ran out before the loop ended.
\<close>

fun search_loop ::
  "nat \<Rightarrow> replies \<Rightarrow> CollectOptions \<Rightarrow> Ecosystem \<Rightarrow> int \<Rightarrow> int \<Rightarrow> search_state
     \<Rightarrow> (search_state \<times> unit outcome) option" where
  "search_loop 0 reply config eco tot offset st = None"
| "search_loop (Suc fuel) reply config eco tot offset st =
     (if offset < tot then
        (case search_page reply config eco st (offset - cfg_margin config) of
           (st1, Throw e) \<Rightarrow> Some (st1, Throw e)
         | (st1, Return _) \<Rightarrow>
             search_loop fuel reply config eco tot (offset + (cfg_step config - cfg_margin config)) st1)
      else Some (st, Return ()))"

definition search_init :: search_state where
  "search_init = \<lparr>cache = [], sent = [], scanner_version = None\<rparr>"

definition search ::
  "nat \<Rightarrow> replies \<Rightarrow> CollectOptions \<Rightarrow> Ecosystem
     \<Rightarrow> (search_state \<times> SearchObject list outcome) option" where
  "search fuel reply config eco =
     (case search_page reply config eco search_init 0 of
        (st, Throw e) \<Rightarrow> Some (st, Throw e)
      | (st, Return tot) \<Rightarrow>
          (case search_loop fuel reply config eco tot (int (length (dict_values (cache st)))) st of
             None \<Rightarrow> None
           | Some (st1, Throw e) \<Rightarrow> Some (st1, Throw e)
           | Some (st1, Return _) \<Rightarrow> Some (st1, Return (dict_values (cache st1)))))"

text \<open>The offsets (\<^verbatim>\<open>from=\<close>) of the page requests a search has sent, in order.\<close>

fun request_offset :: "request \<Rightarrow> int" where
  "request_offset (SearchPage text size' from' tmo) = from'"
| "request_offset (Get path) = 0"

definition offsets :: "search_state \<Rightarrow> int list" where
  "offsets st = map request_offset (sent st)"

definition first_request :: "CollectOptions \<Rightarrow> Ecosystem \<Rightarrow> request" where
  "first_request config eco =
     SearchPage (join ''+'' (eco_keywords eco)) (cfg_step config) 0 (cfg_timeout config)"

section \<open>Version order\<close>

text \<open>
  \<^verbatim>\<open>compare\<close> of the \<^verbatim>\<open>semver\<close> package, on parsed versions: the three numbers
  first, then the prerelease identifiers, where a version without prerelease is above
  one with, a numeric identifier is below an alphanumeric one, and a shorter list is
  below its extensions.
\<close>

fun compareIdentifiers :: "ident \<Rightarrow> ident \<Rightarrow> int" where
  "compareIdentifiers (Num a) (Num b) = (if a = b then 0 else if a < b then - 1 else 1)"
| "compareIdentifiers (Num a) (Alnum b) = - 1"
| "compareIdentifiers (Alnum a) (Num b) = 1"
| "compareIdentifiers (Alnum a) (Alnum b) = (if a = b then 0 else if a < b then - 1 else 1)"

definition compareNumbers :: "nat \<Rightarrow> nat \<Rightarrow> int" where
  "compareNumbers a b = (if a = b then 0 else if a < b then - 1 else 1)"

definition compareMain :: "SemVer \<Rightarrow> SemVer \<Rightarrow> int" where
  "compareMain a b =
     (if compareNumbers (major a) (major b) \<noteq> 0 then compareNumbers (major a) (major b)
      else if compareNumbers (minor a) (minor b) \<noteq> 0 then compareNumbers (minor a) (minor b)
      else compareNumbers (patch a) (patch b))"

fun comparePreLoop :: "ident list \<Rightarrow> ident list \<Rightarrow> int" where
  "comparePreLoop [] [] = 0"
| "comparePreLoop (a # as) [] = 1"
| "comparePreLoop [] (b # bs) = - 1"
| "comparePreLoop (a # as) (b # bs) =
     (if a = b then comparePreLoop as bs else compareIdentifiers a b)"

definition comparePre :: "SemVer \<Rightarrow> SemVer \<Rightarrow> int" where
  "comparePre a b =
     (if prerelease a \<noteq> [] \<and> prerelease b = [] then - 1
      else if prerelease a = [] \<and> prerelease b \<noteq> [] then 1
      else if prerelease a = [] \<and> prerelease b = [] then 0
      else comparePreLoop (prerelease a) (prerelease b))"

definition semver_compare :: "SemVer \<Rightarrow> SemVer \<Rightarrow> int" where
  "semver_compare a b = (if compareMain a b \<noteq> 0 then compareMain a b else comparePre a b)"


section \<open>Loading one package\<close>

text \<open>
  \<^verbatim>\<open>Array.prototype.sort(compareFn)\<close>: the stable sort, as an insertion sort that puts
  an element before the first one it does not compare above.
\<close>

fun insert_by :: "('a \<Rightarrow> 'a \<Rightarrow> int) \<Rightarrow> 'a \<Rightarrow> 'a list \<Rightarrow> 'a list" where
  "insert_by cmp x [] = [x]"
| "insert_by cmp x (y # ys) = (if cmp x y \<le> 0 then x # y # ys else y # insert_by cmp x ys)"

definition array_sort :: "('a \<Rightarrow> 'a \<Rightarrow> int) \<Rightarrow> 'a list \<Rightarrow> 'a list" where
  "array_sort cmp xs = foldr (insert_by cmp) xs []"

text \<open>
  \<^verbatim>\<open>Array.prototype.sort()\<close> without a comparator, on an array of strings with holes:
  the strings in ascending order, then every \<^verbatim>\<open>undefined\<close>.
\<close>

definition string_sort :: "string option list \<Rightarrow> string option list" where
  "string_sort xs =
     map Some (sort (List.map_filter (\<lambda>x. x) xs)) @ filter (\<lambda>x. x = None) xs"

definition first_of :: "'a option list \<Rightarrow> 'a option" where
  "first_of xs = (case xs of [] \<Rightarrow> None | x # _ \<Rightarrow> x)"

definition last_of :: "'a option list \<Rightarrow> 'a option" where
  "last_of xs = (if xs = [] then None else last xs)"

text \<open>A string-valued property is truthy when it is present and not empty.\<close>

definition truthy :: "string option \<Rightarrow> bool" where
  "truthy s = (case s of None \<Rightarrow> False | Some t \<Rightarrow> t \<noteq> [])"

text \<open>
  The metadata document \<^verbatim>\<open>GET {registry}/<name>\<close> returns. \<open>reg_versions\<close> is the
  \<^verbatim>\<open>versions\<close> dictionary in insertion order, so \<^verbatim>\<open>Object.values\<close> is its second
  projection.
\<close>

record Registry =
  reg_name :: string
  reg_versions :: "(SemVer \<times> RemotePackage) list"
  reg_time :: "(SemVer \<times> string) list"
  reg_dist_tags :: "(string \<times> SemVer) list"

text \<open>
  \<^verbatim>\<open>Ecosystem.check\<close>, \<^verbatim>\<open>Manifest.conclude\<close> and \<^verbatim>\<open>Ecosystem.resolve\<close> live in
  \<^verbatim>\<open>manifest.ts\<close>, which is not among the sources; the scanner takes them as
  parameters.
\<close>

record resolver =
  check :: "Ecosystem \<Rightarrow> RemotePackage \<Rightarrow> string option"
  conclude :: "RemotePackage \<Rightarrow> string \<Rightarrow> Manifest"
  resolve :: "string \<Rightarrow> Manifest \<Rightarrow> Ecosystem"

text \<open>
  The scanner's options. A callback returns \<open>Throw\<close> when it throws or its promise
  rejects; a callback that is not configured is one that returns at once.
  \<open>cacheDir\<close> and \<open>collect\<close> exist in the cache-enabled variant only.
\<close>

record Options =
  registry :: string
  cacheDir :: "string option"
  collect :: "CollectOptions option"
  onFailure :: "SearchObject \<Rightarrow> error \<Rightarrow> unit outcome"
  onSuccess :: "SearchObject \<Rightarrow> RemotePackage list option \<Rightarrow> unit outcome"
  onSkipped :: "SearchObject \<Rightarrow> unit outcome"

text \<open>
  What processing one search hit does to the outside: a request sent to the registry
  at some base URL, a sub-ecosystem task appended with
  \<^verbatim>\<open>this.tasks.push(this.loadEcosystem(...))\<close>, a callback invoked.
\<close>

datatype callback =
    OnSuccess SearchObject "RemotePackage list option"
  | OnSkipped SearchObject
  | OnFailure SearchObject error

datatype event =
    Requested string request
  | Pushed Ecosystem
  | Called callback

type_synonym metadata = "string \<Rightarrow> string \<Rightarrow> Registry outcome"

text \<open>
  The statements of \<^verbatim>\<open>loadPackage\<close> after the version \<open>latest\<close> has passed
  \<^verbatim>\<open>Ecosystem.check\<close> with \<open>sn\<close>; \<open>set_eco\<close> tells whether
  \<^verbatim>\<open>object.ecosystem = eco.name\<close> is among them (it is in \<^verbatim>\<open>remote.ts\<close>).
\<close>

definition classify ::
  "bool \<Rightarrow> resolver \<Rightarrow> Ecosystem \<Rightarrow> Registry \<Rightarrow> RemotePackage list \<Rightarrow> RemotePackage \<Rightarrow> string
     \<Rightarrow> SearchObject \<Rightarrow> event list \<times> SearchObject" where
  "classify set_eco rs eco reg versions latest sn object =
     (let m = conclude rs latest (eco_property eco);
          times = string_sort (map (\<lambda>item. map_of (reg_time reg) (version item)) versions);
          pkg = (package object)
                  \<lparr>pkg_contributors :=
                     (case pkg_contributors (package object) of
                        Some c \<Rightarrow> Some c
                      | None \<Rightarrow> Some (if truthy (author latest) then [the (author latest)] else [])),
                   pkg_keywords := (case rp_keywords latest of None \<Rightarrow> [] | Some ks \<Rightarrow> ks)\<rparr>
      in (if man_ecosystem m \<noteq> None then [Pushed (resolve rs (reg_name reg) m)] else [],
          object\<lparr>package := pkg,
                 ecosystem := (if set_eco then Some (eco_name eco) else ecosystem object),
                 shortname := Some sn,
                 manifest := Some m,
                 insecure := Some (man_insecure m),
                 category := man_category m,
                 createdAt := first_of times,
                 updatedAt := last_of times\<rparr>))"

text \<open>
  The versions in descending order, and the choice of \<^verbatim>\<open>latest\<close> in \<^verbatim>\<open>remote.ts\<close>:
  the first of the versions that are not deprecated.
\<close>

definition select_latest :: "RemotePackage list \<Rightarrow> RemotePackage option" where
  "select_latest versions =
     (case filter (\<lambda>item. \<not> truthy (deprecated item)) versions of
        [] \<Rightarrow> None
      | latest # _ \<Rightarrow> Some latest)"

definition sorted_versions :: "Registry \<Rightarrow> RemotePackage list" where
  "sorted_versions reg =
     array_sort (\<lambda>a b. semver_compare (version b) (version a)) (map snd (reg_versions reg))"

text \<open>
  \<^verbatim>\<open>loadPackage\<close> of \<^verbatim>\<open>remote.ts\<close>: the events, the hit as mutated, and the
  versions returned (\<open>None\<close> for \<^verbatim>\<open>undefined\<close>). The request queue only delays a
  request: it has no timeout configured.
\<close>

definition loadPackage ::
  "string \<Rightarrow> metadata \<Rightarrow> resolver \<Rightarrow> Ecosystem \<Rightarrow> SearchObject
     \<Rightarrow> event list \<times> SearchObject \<times> RemotePackage list option outcome" where
  "loadPackage base fetch rs eco object =
     (let path = ''/'' @ name (package object) in
      case fetch base path of
        Throw e \<Rightarrow> ([Requested base (Get path)], object, Throw e)
      | Return reg \<Rightarrow>
          (let versions = sorted_versions reg in
           case select_latest versions of
             None \<Rightarrow> ([Requested base (Get path)], object, Return None)
           | Some latest \<Rightarrow>
               (if \<not> truthy (check rs eco latest)
                then ([Requested base (Get path)], object, Return None)
                else (let (evs, object1) =
                            classify True rs eco reg versions latest (the (check rs eco latest)) object
                      in (Requested base (Get path) # evs, object1, Return (Some versions))))))"

text \<open>
  The choice of \<^verbatim>\<open>latest\<close> in the cache-enabled variant: the version that the
  \<^verbatim>\<open>latest\<close> dist-tag names; nothing when there is no such tag, when
  \<^verbatim>\<open>versions\<close> has no such version, or when that version is deprecated.
\<close>

definition select_tagged :: "Registry \<Rightarrow> RemotePackage option" where
  "select_tagged reg =
     (case map_of (reg_dist_tags reg) ''latest'' of
        None \<Rightarrow> None
      | Some latestVersion \<Rightarrow>
          (case map_of (reg_versions reg) latestVersion of
             None \<Rightarrow> None
           | Some latest \<Rightarrow> if truthy (deprecated latest) then None else Some latest))"

text \<open>
  \<^verbatim>\<open>loadPackage\<close> of the cache-enabled variant. Its request path is the template
  \<^verbatim>\<open>/${name}\<close>, and \<^verbatim>\<open>name\<close> is bound neither in this function nor in the module:
  \<open>global_name\<close> is the string that the global scope gives it, \<open>None\<close> when nothing
  binds it and evaluating it throws a ReferenceError.
\<close>

definition loadPackage_cached ::
  "string option \<Rightarrow> string \<Rightarrow> metadata \<Rightarrow> resolver \<Rightarrow> Ecosystem \<Rightarrow> SearchObject
     \<Rightarrow> event list \<times> SearchObject \<times> RemotePackage list option outcome" where
  "loadPackage_cached global_name base fetch rs eco object =
     (case global_name of
        None \<Rightarrow> ([], object, Throw ReferenceError)
      | Some n \<Rightarrow>
          (let path = ''/'' @ n in
           case fetch base path of
             Throw e \<Rightarrow> ([Requested base (Get path)], object, Throw e)
           | Return reg \<Rightarrow>
               (let versions = sorted_versions reg in
                case select_tagged reg of
                  None \<Rightarrow> ([Requested base (Get path)], object, Return None)
                | Some latest \<Rightarrow>
                    (if \<not> truthy (check rs eco latest)
                     then ([Requested base (Get path)], object, Return None)
                     else (let (evs, object1) =
                                 classify False rs eco reg versions latest (the (check rs eco latest)) object
                           in (Requested base (Get path) # evs, object1, Return (Some versions)))))))"

section \<open>Loading one ecosystem\<close>

text \<open>
  The \<^verbatim>\<open>catch\<close> block of the per-object task: \<open>mark\<close> tells whether it sets
  \<^verbatim>\<open>object.ignored = true\<close> first (it does in \<^verbatim>\<open>remote.ts\<close>). The last component
  is the reason the task's promise rejects with, if it does: only an exception of
  \<^verbatim>\<open>onFailure\<close> itself leaves the \<^verbatim>\<open>catch\<close> block.
\<close>

type_synonym task = "event list \<times> SearchObject \<times> error option"

definition on_catch :: "bool \<Rightarrow> Options \<Rightarrow> event list \<Rightarrow> SearchObject \<Rightarrow> error \<Rightarrow> task" where
  "on_catch mark opts evs object e =
     (let object1 = (if mark then object\<lparr>ignored := True\<rparr> else object)
      in (evs @ [Called (OnFailure object1 e)], object1,
          case onFailure opts object1 e of Return _ \<Rightarrow> None | Throw e1 \<Rightarrow> Some e1))"

text \<open>The function \<^verbatim>\<open>loadEcosystem\<close> of \<^verbatim>\<open>remote.ts\<close> maps over the search hits.\<close>

definition loadObject ::
  "Options \<Rightarrow> metadata \<Rightarrow> resolver \<Rightarrow> Ecosystem \<Rightarrow> SearchObject \<Rightarrow> task" where
  "loadObject opts fetch rs eco object =
     (if ignored object then ([], object, None)
      else
        (case loadPackage (registry opts) fetch rs eco object of
           (evs, object1, Throw e) \<Rightarrow> on_catch True opts evs object1 e
         | (evs, object1, Return (Some versions)) \<Rightarrow>
             (case onSuccess opts object1 (Some versions) of
                Return _ \<Rightarrow> (evs @ [Called (OnSuccess object1 (Some versions))], object1, None)
              | Throw e \<Rightarrow>
                  on_catch True opts (evs @ [Called (OnSuccess object1 (Some versions))]) object1 e)
         | (evs, object1, Return None) \<Rightarrow>
             (let object2 = object1\<lparr>ignored := True\<rparr> in
              case onSkipped opts object2 of
                Return _ \<Rightarrow> (evs @ [Called (OnSkipped object2)], object2, None)
              | Throw e \<Rightarrow> on_catch True opts (evs @ [Called (OnSkipped object2)]) object2 e)))"

text \<open>
  \<^verbatim>\<open>Promise.all\<close> over the per-object tasks: fulfilled once every task is, rejected as
  soon as one task rejects. Which rejection comes first is a matter of timing; the
  model reports the first in the order of the hits.
\<close>

definition rejections :: "task list \<Rightarrow> error list" where
  "rejections ts = List.map_filter (\<lambda>(evs, object, r). r) ts"

definition promise_all :: "task list \<Rightarrow> unit outcome" where
  "promise_all ts = (case rejections ts of [] \<Rightarrow> Return () | e # _ \<Rightarrow> Throw e)"

definition loadEcosystem ::
  "nat \<Rightarrow> Options \<Rightarrow> replies \<Rightarrow> metadata \<Rightarrow> resolver \<Rightarrow> Ecosystem
     \<Rightarrow> (search_state \<times> task list \<times> unit outcome) option" where
  "loadEcosystem fuel opts reply fetch rs eco =
     (case search fuel reply \<lparr>step = None, margin = None, timeout = None\<rparr> eco of
        None \<Rightarrow> None
      | Some (st, Throw e) \<Rightarrow> Some (st, [], Throw e)
      | Some (st, Return objs) \<Rightarrow>
          (let ts = map (loadObject opts fetch rs eco) objs in Some (st, ts, promise_all ts)))"

text \<open>The callbacks invoked and the requests sent among a list of events, in order.\<close>

fun fired :: "event list \<Rightarrow> callback list" where
  "fired [] = []"
| "fired (Called cb # evs) = cb # fired evs"
| "fired (ev # evs) = fired evs"

fun sent_requests :: "event list \<Rightarrow> (string \<times> request) list" where
  "sent_requests [] = []"
| "sent_requests (Requested base req # evs) = (base, req) # sent_requests evs"
| "sent_requests (ev # evs) = sent_requests evs"

fun pushed :: "event list \<Rightarrow> Ecosystem list" where
  "pushed [] = []"
| "pushed (Pushed eco # evs) = eco # pushed evs"
| "pushed (ev # evs) = pushed evs"

section \<open>The cache-enabled scanner\<close>

text \<open>
  The snapshot files as \<^verbatim>\<open>JSON.parse(await readFile(...))\<close> yields them, \<open>Throw\<close>
  when the file cannot be read or parsed. \<open>cf_packages\<close> is \<open>None\<close> when the
  document has no \<^verbatim>\<open>packages\<close>, on which \<^verbatim>\<open>Object.setPrototypeOf\<close> throws.
\<close>

record cache_file =
  cf_version :: int
  cf_registry :: string
  cf_packages :: "(string \<times> string) list option"

record files =
  read_cache :: "string \<Rightarrow> cache_file outcome"
  read_index :: "string \<Rightarrow> SearchResult outcome"

record SearchCache =
  sc_version :: int
  sc_registry :: string
  sc_packages :: "(string \<times> string) list"

text \<open>
  The scanner's fields. \<open>searchCache\<close> starts as \<^verbatim>\<open>Object.create(null)\<close>, an object
  with no \<^verbatim>\<open>packages\<close> property: that is \<open>None\<close>.
\<close>

record scanner =
  searchCache :: "SearchCache option"
  legacyResult :: SearchResult

definition new_scanner :: scanner where
  "new_scanner = \<lparr>searchCache = None, legacyResult = \<lparr>objects = [], total = 0, res_version = None\<rparr>\<rparr>"

definition cache_version :: int where
  "cache_version = 1"

definition initCache_try :: "string \<Rightarrow> Options \<Rightarrow> files \<Rightarrow> scanner \<Rightarrow> scanner outcome" where
  "initCache_try dir opts fs sc =
     (case read_cache fs (dir @ ''/cache.json'') of
        Throw e \<Rightarrow> Throw e
      | Return cached \<Rightarrow>
          (case read_index fs (dir @ ''/index.json'') of
             Throw e \<Rightarrow> Throw e
           | Return legacy \<Rightarrow>
               (if cf_version cached \<noteq> cache_version \<or> cf_registry cached \<noteq> registry opts
                then Return sc
                else (case cf_packages cached of
                        None \<Rightarrow> Throw TypeError
                      | Some pkgs \<Rightarrow>
                          Return (sc\<lparr>searchCache :=
                                        Some \<lparr>sc_version = cf_version cached,
                                              sc_registry = cf_registry cached,
                                              sc_packages = pkgs\<rparr>,
                                      legacyResult := legacy\<rparr>)))))"

definition initCache :: "Options \<Rightarrow> files \<Rightarrow> scanner \<Rightarrow> scanner outcome" where
  "initCache opts fs sc =
     (if \<not> truthy (cacheDir opts) then Return sc
      else (case initCache_try (the (cacheDir opts)) opts fs sc of
              Throw e \<Rightarrow> Return sc
            | Return sc1 \<Rightarrow> Return sc1))"

text \<open>The function \<^verbatim>\<open>loadEcosystem\<close> of the cache-enabled variant maps over the hits.\<close>

definition loadObject_cached ::
  "string option \<Rightarrow> Options \<Rightarrow> scanner \<Rightarrow> metadata \<Rightarrow> resolver \<Rightarrow> Ecosystem \<Rightarrow> SearchObject \<Rightarrow> task" where
  "loadObject_cached global_name opts sc fetch rs eco object =
     (case searchCache sc of
        None \<Rightarrow> on_catch False opts [] object TypeError
      | Some c \<Rightarrow>
          (if Some (date (package object)) = map_of (sc_packages c) (name (package object))
           then
             (case find (\<lambda>legacy. name (package legacy) = name (package object))
                     (objects (legacyResult sc)) of
                Some legacy \<Rightarrow>
                  (case onSuccess opts legacy None of
                     Return _ \<Rightarrow> ([Called (OnSuccess legacy None)], object, None)
                   | Throw e \<Rightarrow> on_catch False opts [Called (OnSuccess legacy None)] object e)
              | None \<Rightarrow>
                  (case onSkipped opts object of
                     Return _ \<Rightarrow> ([Called (OnSkipped object)], object, None)
                   | Throw e \<Rightarrow> on_catch False opts [Called (OnSkipped object)] object e))
           else
             (case loadPackage_cached global_name (registry opts) fetch rs eco object of
                (evs, object1, Throw e) \<Rightarrow> on_catch False opts evs object1 e
              | (evs, object1, Return (Some versions)) \<Rightarrow>
                  (case onSuccess opts object1 (Some versions) of
                     Return _ \<Rightarrow> (evs @ [Called (OnSuccess object1 (Some versions))], object1, None)
                   | Throw e \<Rightarrow>
                       on_catch False opts (evs @ [Called (OnSuccess object1 (Some versions))]) object1 e)
              | (evs, object1, Return None) \<Rightarrow>
                  (case onSkipped opts object1 of
                     Return _ \<Rightarrow> (evs @ [Called (OnSkipped object1)], object1, None)
                   | Throw e \<Rightarrow> on_catch False opts (evs @ [Called (OnSkipped object1)]) object1 e))))"

definition loadEcosystem_cached ::
  "nat \<Rightarrow> string option \<Rightarrow> Options \<Rightarrow> scanner \<Rightarrow> replies \<Rightarrow> metadata \<Rightarrow> resolver \<Rightarrow> Ecosystem
     \<Rightarrow> (search_state \<times> task list \<times> unit outcome) option" where
  "loadEcosystem_cached fuel global_name opts sc reply fetch rs eco =
     (case search fuel reply
             (case collect opts of None \<Rightarrow> \<lparr>step = None, margin = None, timeout = None\<rparr> | Some c \<Rightarrow> c)
             eco of
        None \<Rightarrow> None
      | Some (st, Throw e) \<Rightarrow> Some (st, [], Throw e)
      | Some (st, Return objs) \<Rightarrow>
          (let ts = map (loadObject_cached global_name opts sc fetch rs eco) objs
           in Some (st, ts, promise_all ts)))"

section \<open>The ecosystem worklist\<close>

text \<open>
  \<^verbatim>\<open>collect\<close> and the promises in \<^verbatim>\<open>this.tasks\<close>. A promise is named by the order
  of its creation; \<open>tasks\<close> is the array \<^verbatim>\<open>this.tasks\<close>, \<open>batch\<close> the array that
  \<^verbatim>\<open>splice(0)\<close> handed to the \<^verbatim>\<open>Promise.all\<close> being awaited, \<open>rounds\<close> every such
  batch so far, and \<open>born ! t\<close> the number of rounds that had started when promise
  \<open>t\<close> was appended.
\<close>

datatype phase = Awaiting | Completed | Aborted

record collector =
  tasks :: "nat list"
  batch :: "nat list"
  rounds :: "nat list list"
  created :: nat
  fulfilled :: "nat list"
  rejected :: "nat list"
  born :: "nat list"
  phase :: phase

text \<open>
  What can happen while \<^verbatim>\<open>collect\<close> is suspended: a running \<^verbatim>\<open>loadEcosystem\<close>
  promise reaches the \<^verbatim>\<open>push\<close> in \<^verbatim>\<open>loadPackage\<close>, it settles, or the awaited
  \<^verbatim>\<open>Promise.all\<close> has settled and \<^verbatim>\<open>collect\<close> resumes.
\<close>

datatype action = Push nat | Fulfil nat | Reject nat | Resume

text \<open>
  The loop head \<^verbatim>\<open>while (this.tasks.length) await Promise.all(this.tasks.splice(0))\<close>,
  up to the \<^verbatim>\<open>await\<close>: test and \<^verbatim>\<open>splice\<close> run without interruption.
\<close>

definition loop_head :: "collector \<Rightarrow> collector" where
  "loop_head c =
     (if tasks c = [] then c\<lparr>batch := [], phase := Completed\<rparr>
      else c\<lparr>batch := tasks c, rounds := rounds c @ [tasks c], tasks := [], phase := Awaiting\<rparr>)"

text \<open>
  \<^verbatim>\<open>this.tasks.push(this.loadEcosystem(Ecosystem.INIT))\<close>, then the loop head.
  \<^verbatim>\<open>loadEcosystem\<close> runs up to its first request before \<^verbatim>\<open>push\<close> is called, and
  appends nothing by then.
\<close>

definition collect_start :: collector where
  "collect_start =
     loop_head \<lparr>tasks = [0], batch = [], rounds = [], created = 1, fulfilled = [],
                rejected = [], born = [0], phase = Awaiting\<rparr>"

fun perform :: "action \<Rightarrow> collector \<Rightarrow> collector option" where
  "perform (Push p) c =
     (if p < created c \<and> p \<notin> set (fulfilled c)
      then Some (c\<lparr>tasks := tasks c @ [created c],
                   born := born c @ [length (rounds c)],
                   created := Suc (created c)\<rparr>)
      else None)"
| "perform (Fulfil p) c =
     (if p < created c \<and> p \<notin> set (fulfilled c) \<and> p \<notin> set (rejected c)
      then Some (c\<lparr>fulfilled := p # fulfilled c\<rparr>)
      else None)"
| "perform (Reject p) c =
     (if p < created c \<and> p \<notin> set (fulfilled c) \<and> p \<notin> set (rejected c)
      then Some (c\<lparr>rejected := p # rejected c\<rparr>)
      else None)"
| "perform Resume c =
     (if phase c \<noteq> Awaiting then None
      else if \<exists>p \<in> set (batch c). p \<in> set (rejected c) then Some (c\<lparr>phase := Aborted\<rparr>)
      else if \<forall>p \<in> set (batch c). p \<in> set (fulfilled c) then Some (loop_head c)
      else None)"

fun run :: "action list \<Rightarrow> collector \<Rightarrow> collector option" where
  "run [] c = Some c"
| "run (a # as) c = (case perform a c of None \<Rightarrow> None | Some c1 \<Rightarrow> run as c1)"

definition collect_run :: "action list \<Rightarrow> collector option" where
  "collect_run acts = run acts collect_start"

text \<open>
  What holds of the worklist at every moment: every promise created so far is pending
  in \<open>tasks\<close> or in one round, once; a promise sits in the round whose number is the
  count of rounds started when it was appended; no promise is both fulfilled and
  rejected; while \<^verbatim>\<open>collect\<close> waits, the rounds before the current one are
  fulfilled; and once it has returned, all are.
\<close>

definition collector_inv :: "collector \<Rightarrow> bool" where
  "collector_inv c \<longleftrightarrow>
     length (born c) = created c
     \<and> distinct (concat (rounds c) @ tasks c)
     \<and> set (concat (rounds c) @ tasks c) = {0..<created c}
     \<and> (\<forall>j<length (rounds c). \<forall>t\<in>set (rounds c ! j). born c ! t = j)
     \<and> (\<forall>t\<in>set (tasks c). born c ! t = length (rounds c))
     \<and> set (fulfilled c) \<inter> set (rejected c) = {}
     \<and> (phase c = Awaiting \<longrightarrow>
          rounds c \<noteq> [] \<and> batch c = last (rounds c)
          \<and> set (concat (butlast (rounds c))) \<subseteq> set (fulfilled c))
     \<and> (phase c = Completed \<longrightarrow> tasks c = [] \<and> set (concat (rounds c)) \<subseteq> set (fulfilled c))"

section \<open>The Synchronizer\<close>

text \<open>
  \<^verbatim>\<open>Synchronizer.analyze\<close>. The scanner's own \<^verbatim>\<open>analyze\<close> is not among the
  sources; \<open>succeeded\<close> is the list of objects it hands to \<^verbatim>\<open>onSuccess\<close>, in
  order, and \<open>objs\<close> is \<^verbatim>\<open>this.scanner.objects\<close> afterwards. The
  \<^verbatim>\<open>Set<string>\<close> is a list without duplicates.
\<close>

definition analyze_onSuccess :: "SearchObject \<Rightarrow> string option list \<Rightarrow> string option list" where
  "analyze_onSuccess object shortnames =
     (if verified object then List.insert (shortname object) shortnames else shortnames)"

definition analyze :: "SearchObject list \<Rightarrow> SearchObject list \<Rightarrow> SearchObject list" where
  "analyze succeeded objs =
     (let shortnames = fold analyze_onSuccess succeeded []
      in map (\<lambda>object.
                if verified object \<or> shortname object \<notin> set shortnames then object
                else object\<lparr>ignored := True\<rparr>) objs)"

text \<open>
  JavaScript numbers in the scoring block of \<^verbatim>\<open>bundleAll\<close>: a finite double or
  \<^verbatim>\<open>NaN\<close>. Sizes, download counts and sub-scores are finite and the sub-scores lie
  between -1 and 1, so no operation here overflows to an infinity. The arithmetic of
  doubles is not fixed: \<open>rnd\<close> is the rounding of an exact result to a double and
  \<open>math_exp\<close> is \<^verbatim>\<open>Math.exp\<close> on a finite double; both are parameters, so that
  nothing below depends on how a result is rounded, and a sum keeps depending on the
  order of its additions.
\<close>

datatype number = Finite real | NaN

record arith =
  rnd :: "real \<Rightarrow> real"
  math_exp :: "real \<Rightarrow> real"

definition num_add :: "arith \<Rightarrow> number \<Rightarrow> number \<Rightarrow> number" where
  "num_add ar a b = (case (a, b) of (Finite x, Finite y) \<Rightarrow> Finite (rnd ar (x + y)) | _ \<Rightarrow> NaN)"

definition num_sub :: "arith \<Rightarrow> number \<Rightarrow> number \<Rightarrow> number" where
  "num_sub ar a b = (case (a, b) of (Finite x, Finite y) \<Rightarrow> Finite (rnd ar (x - y)) | _ \<Rightarrow> NaN)"

definition num_mul :: "arith \<Rightarrow> number \<Rightarrow> number \<Rightarrow> number" where
  "num_mul ar a b = (case (a, b) of (Finite x, Finite y) \<Rightarrow> Finite (rnd ar (x * y)) | _ \<Rightarrow> NaN)"

text \<open>
  \<^verbatim>\<open>Math.max\<close> converts its arguments to numbers, \<^verbatim>\<open>undefined\<close> to \<^verbatim>\<open>NaN\<close>, and
  returns \<^verbatim>\<open>NaN\<close> when one of them is.
\<close>

definition to_number :: "number option \<Rightarrow> number" where
  "to_number v = (case v of None \<Rightarrow> NaN | Some x \<Rightarrow> x)"

definition math_max :: "number \<Rightarrow> number \<Rightarrow> number" where
  "math_max a b = (case (a, b) of (Finite x, Finite y) \<Rightarrow> Finite (max x y) | _ \<Rightarrow> NaN)"

datatype subject = Maintenance | Popularity | Quality

text \<open>A decimal literal is the double nearest to it.\<close>

definition weights :: "arith \<Rightarrow> subject \<Rightarrow> number" where
  "weights ar s =
     (case s of Maintenance \<Rightarrow> Finite (rnd ar 0.3)
      | Popularity \<Rightarrow> Finite (rnd ar 0.5)
      | Quality \<Rightarrow> Finite (rnd ar 0.2))"

definition subjects :: "subject list" where
  "subjects = [Maintenance, Popularity, Quality]"

record Score =
  final :: number
  detail :: "subject \<Rightarrow> number option"

record Item =
  score :: Score
  rating :: "number option"
  installSize :: "number option"

text \<open>
  \<^verbatim>\<open>evaluators.quality\<close>:
  \<^verbatim>\<open>Math.exp(-Math.max(object.installSize, 100 * (1 << 10)) / (10 * (1 << 20)))\<close> inside a
  \<^verbatim>\<open>try\<close> whose \<^verbatim>\<open>catch\<close> returns 0. No operation of the expression throws, so the
  \<^verbatim>\<open>catch\<close> is never entered; \<open>installSize\<close> is \<open>None\<close> when the bundle step ended
  before measuring.
\<close>

definition quality :: "arith \<Rightarrow> Item \<Rightarrow> number outcome" where
  "quality ar object =
     (case math_max (to_number (installSize object)) (Finite 102400) of
        NaN \<Rightarrow> Return NaN
      | Finite m \<Rightarrow> Return (Finite (math_exp ar (rnd ar (- m / 10485760)))))"

text \<open>
  The promises in \<^verbatim>\<open>tasks\<close>: \<^verbatim>\<open>tasks.quality\<close> is \<^verbatim>\<open>evaluators.quality(item)\<close>, run
  after the bundle step; what the other two evaluators give is \<open>others\<close>.
\<close>

definition score_tasks :: "arith \<Rightarrow> (subject \<Rightarrow> number outcome) \<Rightarrow> Item \<Rightarrow> subject \<Rightarrow> number outcome" where
  "score_tasks ar others item s = (case s of Quality \<Rightarrow> quality ar item | _ \<Rightarrow> others s)"

text \<open>
  The loop over \<^verbatim>\<open>Object.keys(weights)\<close>: \<open>awaited\<close> is \<^verbatim>\<open>value\<close> after the
  \<^verbatim>\<open>try\<close>, 0 when the promise rejected; \<open>order\<close> is the order in which the three
  awaits resume, and each resumption adds to \<^verbatim>\<open>score.final\<close> without interruption.
\<close>

definition awaited :: "(subject \<Rightarrow> number outcome) \<Rightarrow> subject \<Rightarrow> number" where
  "awaited results s = (case results s of Return x \<Rightarrow> x | Throw e \<Rightarrow> Finite 0)"

definition settle_subject :: "arith \<Rightarrow> (subject \<Rightarrow> number outcome) \<Rightarrow> subject \<Rightarrow> Score \<Rightarrow> Score" where
  "settle_subject ar results s sc =
     (let v = awaited results s
      in sc\<lparr>detail := (detail sc)(s := Some v),
             final := num_add ar (final sc) (num_mul ar (weights ar s) v)\<rparr>)"

definition evaluate_score ::
  "arith \<Rightarrow> (subject \<Rightarrow> number outcome) \<Rightarrow> subject list \<Rightarrow> Item \<Rightarrow> Item" where
  "evaluate_score ar results order item =
     (let sc = fold (settle_subject ar results) order ((score item)\<lparr>final := Finite 0\<rparr>)
      in item\<lparr>score := sc,
               rating := Some (num_mul ar (num_sub ar (final sc) (Finite (rnd ar 0.3))) (Finite 10))\<rparr>)"

section \<open>Example inputs\<close>

text \<open>Concrete inputs at which the theorems below are instantiated.\<close>

definition default_config :: CollectOptions where
  "default_config = \<lparr>step = None, margin = None, timeout = None\<rparr>"

definition example_eco :: Ecosystem where
  "example_eco = \<lparr>eco_name = ''cordis'', eco_keywords = [''cordis'', ''plugin''], eco_property = ''cordis''\<rparr>"

definition example_hit :: "string \<Rightarrow> SearchObject" where
  "example_hit n =
     \<lparr>package = \<lparr>name = n, date = ''2024-01-01'', pkg_contributors = None, pkg_keywords = []\<rparr>,
      ignored = False, verified = False, ecosystem = None, shortname = None, manifest = None,
      insecure = None, category = None, createdAt = None, updatedAt = None\<rparr>"

definition example_page :: SearchResult where
  "example_page =
     \<lparr>objects = map (\<lambda>i. example_hit (''plugin-'' @ replicate i CHR ''x'')) [0..<250],
      total = 300, res_version = None\<rparr>"

definition example_replies :: replies where
  "example_replies k req = Return example_page"

definition stuck_config :: CollectOptions where
  "stuck_config = \<lparr>step = Some 25, margin = Some 25, timeout = None\<rparr>"

definition semver :: "nat \<Rightarrow> nat \<Rightarrow> nat \<Rightarrow> SemVer" where
  "semver a b c = \<lparr>major = a, minor = b, patch = c, prerelease = []\<rparr>"

definition release :: "SemVer \<Rightarrow> string option \<Rightarrow> RemotePackage" where
  "release v d = \<lparr>version = v, deprecated = d, author = None, rp_keywords = None\<rparr>"

text \<open>A package whose \<^verbatim>\<open>latest\<close> tag names a deprecated version.\<close>

definition tagged_registry :: Registry where
  "tagged_registry =
     \<lparr>reg_name = ''foo'',
      reg_versions =
        [(semver 1 0 0, release (semver 1 0 0) None),
         (semver 1 1 0, release (semver 1 1 0) None),
         (semver 2 0 0, release (semver 2 0 0) (Some ''use 1.x''))],
      reg_time =
        [(semver 1 0 0, ''2023-01-01''), (semver 1 1 0, ''2023-06-01''), (semver 2 0 0, ''2024-01-01'')],
      reg_dist_tags = [(''latest'', semver 2 0 0)]\<rparr>"

definition example_resolver :: resolver where
  "example_resolver =
     \<lparr>check = (\<lambda>eco meta. Some ''foo''),
      conclude = (\<lambda>meta property. \<lparr>man_insecure = False, man_category = None, man_ecosystem = None\<rparr>),
      resolve = (\<lambda>n m. \<lparr>eco_name = n, eco_keywords = [], eco_property = n\<rparr>)\<rparr>"

definition example_fetch :: metadata where
  "example_fetch base path =
     (if path = ''/foo'' then Return tagged_registry else Throw (RequestFailed ''not found''))"

definition example_opts :: Options where
  "example_opts =
     \<lparr>registry = ''https://registry.npmjs.org'', cacheDir = None, collect = None,
      onFailure = (\<lambda>object e. Return ()),
      onSuccess = (\<lambda>object versions. Return ()),
      onSkipped = (\<lambda>object. Return ())\<rparr>"

text \<open>Options whose \<^verbatim>\<open>onSuccess\<close> throws.\<close>

definition throwing_opts :: Options where
  "throwing_opts = example_opts\<lparr>onSuccess := (\<lambda>object versions. Throw (CallbackFailed ''onSuccess''))\<rparr>"

text \<open>A scanner whose snapshot knows \<^verbatim>\<open>bar\<close>, and a snapshot file of another format version.\<close>

definition legacy_bar :: SearchObject where
  "legacy_bar = (example_hit ''bar'')\<lparr>shortname := Some ''bar'', ecosystem := Some ''cordis''\<rparr>"

definition warm_scanner :: scanner where
  "warm_scanner =
     \<lparr>searchCache = Some \<lparr>sc_version = 1, sc_registry = ''https://registry.npmjs.org'',
                           sc_packages = [(''bar'', ''2024-01-01'')]\<rparr>,
      legacyResult = \<lparr>objects = [legacy_bar], total = 1, res_version = None\<rparr>\<rparr>"

definition stale_files :: files where
  "stale_files =
     \<lparr>read_cache = (\<lambda>path. Return \<lparr>cf_version = 2, cf_registry = ''https://registry.npmjs.org'',
                                     cf_packages = Some [(''bar'', ''2024-01-01'')]\<rparr>),
      read_index = (\<lambda>path. Return \<lparr>objects = [legacy_bar], total = 1, res_version = None\<rparr>)\<rparr>"

definition good_files :: files where
  "good_files =
     \<lparr>read_cache = (\<lambda>path. Return \<lparr>cf_version = 1, cf_registry = ''https://registry.npmjs.org'',
                                     cf_packages = Some [(''bar'', ''2024-01-01'')]\<rparr>),
      read_index = (\<lambda>path. Return \<lparr>objects = [legacy_bar], total = 1, res_version = None\<rparr>)\<rparr>"

text \<open>Two unverified packages and a verified one that map to the shortname \<^verbatim>\<open>foo\<close>.\<close>

definition claimant :: "string \<Rightarrow> bool \<Rightarrow> SearchObject" where
  "claimant n v =
     (example_hit n)\<lparr>verified := v, shortname := Some ''foo'', ecosystem := Some ''cordis''\<rparr>"

text \<open>The same in a given ecosystem.\<close>

definition claimant_in :: "string \<Rightarrow> string \<Rightarrow> bool \<Rightarrow> SearchObject" where
  "claimant_in eco n v =
     (example_hit n)\<lparr>verified := v, shortname := Some ''foo'', ecosystem := Some eco\<rparr>"

text \<open>
  A scoring run for an item whose bundle step failed before \<^verbatim>\<open>installSize\<close> was
  measured, and exact arithmetic as one instance of the parameters.
\<close>

definition example_others :: "subject \<Rightarrow> number outcome" where
  "example_others s =
     (case s of Maintenance \<Rightarrow> Return (Finite 0)
      | Popularity \<Rightarrow> Return (Finite 0.5)
      | Quality \<Rightarrow> Throw TypeError)"

definition unmeasured_item :: Item where
  "unmeasured_item =
     \<lparr>score = \<lparr>final = Finite 0.7, detail = (\<lambda>s. None)\<rparr>, rating = None, installSize = None\<rparr>"

definition exact_arith :: arith where
  "exact_arith = \<lparr>rnd = (\<lambda>x. x), math_exp = exp\<rparr>"

section \<open>Verified properties\<close>


subsection \<open>Paginated search\<close>


lemma dict_set_keys: "fst ` set (dict_set c k v) = insert k (fst ` set c)"
  by (induction c k v rule: dict_set.induct) auto

lemma dict_set_distinct: "distinct (map fst c) \<Longrightarrow> distinct (map fst (dict_set c k v))"
proof (induction c k v rule: dict_set.induct)
  case (1 k v)
  then show ?case by simp
next
  case (2 k' v' kvs k v)
  then show ?case using dict_set_keys [of kvs k v] by auto
qed

lemma fold_dict_set_keys:
  "fst ` set (fold (\<lambda>object c. dict_set c (key object) object) objs c)
     = fst ` set c \<union> key ` set objs"
proof (induction objs arbitrary: c)
  case Nil
  then show ?case by simp
next
  case (Cons a objs)
  show ?case by (simp add: Cons.IH dict_set_keys)
qed

lemma fold_dict_set_distinct:
  "distinct (map fst c) \<Longrightarrow>
     distinct (map fst (fold (\<lambda>object c. dict_set c (key object) object) objs c))"
  by (induction objs arbitrary: c) (simp_all add: dict_set_distinct)

lemma fold_dict_set_length:
  assumes "distinct (map fst c)"
  shows "length (fold (\<lambda>object c. dict_set c (key object) object) objs c)
           = card (fst ` set c \<union> key ` set objs)"
proof -
  let ?c = "fold (\<lambda>object c. dict_set c (key object) object) objs c"
  have "card (fst ` set ?c) = card (set (map fst ?c))" by simp
  also have "\<dots> = length (map fst ?c)"
    using fold_dict_set_distinct [OF assms] by (rule distinct_card)
  finally have "length ?c = card (fst ` set ?c)" by simp
  then show ?thesis by (simp only: fold_dict_set_keys)
qed

lemma search_page_sent:
  "sent (fst (search_page reply config eco st offset))
     = sent st @ [SearchPage (join ''+'' (eco_keywords eco)) (cfg_step config) offset (cfg_timeout config)]"
  by (simp add: search_page_def Let_def split: outcome.splits)

lemma search_page_offsets:
  "offsets (fst (search_page reply config eco st offset)) = offsets st @ [offset]"
  by (simp add: offsets_def search_page_sent)

lemma search_loop_offsets:
  "search_loop fuel reply config eco tot offset st = Some (st', r) \<Longrightarrow>
   \<exists>m. offsets st' = offsets st @ map (\<lambda>k. offset - cfg_margin config + int k * (cfg_step config - cfg_margin config)) [0..<m]
     \<and> (\<forall>k<m. offset + int k * (cfg_step config - cfg_margin config) < tot)"
proof (induction fuel arbitrary: offset st)
  case 0
  then show ?case by simp
next
  case (Suc fuel)
  let ?d = "cfg_step config - cfg_margin config"
  show ?case
  proof (cases "offset < tot")
    case False
    with Suc.prems have "st' = st" by simp
    then show ?thesis by (intro exI [of _ 0]) simp
  next
    case True
    obtain st1 r1 where sp: "search_page reply config eco st (offset - cfg_margin config) = (st1, r1)"
      by (cases "search_page reply config eco st (offset - cfg_margin config)")
    have off1: "offsets st1 = offsets st @ [offset - cfg_margin config]"
      using search_page_offsets [of reply config eco st "offset - cfg_margin config"] sp by simp
    show ?thesis
    proof (cases r1)
      case (Throw e)
      with Suc.prems True sp have "st' = st1" by simp
      with off1 True show ?thesis by (intro exI [of _ 1]) simp
    next
      case (Return t)
      with Suc.prems True sp
      have "search_loop fuel reply config eco tot (offset + ?d) st1 = Some (st', r)" by simp
      from Suc.IH [OF this] obtain m where
        m: "offsets st' = offsets st1 @ map (\<lambda>k. offset + ?d - cfg_margin config + int k * ?d) [0..<m]"
           "\<forall>k<m. offset + ?d + int k * ?d < tot" by blast
      have "map (\<lambda>k. offset - cfg_margin config + int k * ?d) [0..<Suc m]
              = (offset - cfg_margin config) # map (\<lambda>k. offset + ?d - cfg_margin config + int k * ?d) [0..<m]"
        by (simp add: upt_conv_Cons map_Suc_upt [symmetric] algebra_simps del: upt_Suc)
      moreover have "\<forall>k<Suc m. offset + int k * ?d < tot"
      proof (intro allI impI)
        fix k assume "k < Suc m"
        show "offset + int k * ?d < tot"
        proof (cases k)
          case 0 with True show ?thesis by simp
        next
          case (Suc j)
          with \<open>k < Suc m\<close> m(2) have "offset + ?d + int j * ?d < tot" by simp
          with Suc show ?thesis by (simp add: algebra_simps)
        qed
      qed
      ultimately show ?thesis using m(1) off1 by (intro exI [of _ "Suc m"]) simp
    qed
  qed
qed

lemma search_loop_terminates:
  "0 < cfg_step config - cfg_margin config \<Longrightarrow> nat (tot - offset) < fuel \<Longrightarrow>
   search_loop fuel reply config eco tot offset st \<noteq> None"
proof (induction fuel arbitrary: offset st)
  case 0
  then show ?case by simp
next
  case (Suc fuel)
  show ?case
  proof (cases "offset < tot")
    case False
    then show ?thesis by simp
  next
    case True
    with Suc.prems have "nat (tot - (offset + (cfg_step config - cfg_margin config))) < fuel" by linarith
    from Suc.IH [OF Suc.prems(1) this] show ?thesis using True
      by (simp split: prod.splits outcome.splits)
  qed
qed

lemma search_loop_diverges:
  "cfg_step config - cfg_margin config \<le> 0 \<Longrightarrow> offset < tot \<Longrightarrow>
   (\<And>k req. \<exists>page. reply k req = Return page) \<Longrightarrow>
   search_loop fuel reply config eco tot offset st = None"
proof (induction fuel arbitrary: offset st)
  case 0
  then show ?case by simp
next
  case (Suc fuel)
  let ?off = "offset - cfg_margin config"
  obtain page where pg: "reply (length (sent st))
      (SearchPage (join ''+'' (eco_keywords eco)) (cfg_step config) ?off (cfg_timeout config)) = Return page"
    using Suc.prems(3) by blast
  have "offset + (cfg_step config - cfg_margin config) < tot" using Suc.prems by linarith
  from Suc.IH [OF Suc.prems(1) this Suc.prems(3)] pg Suc.prems(2)
  show ?case by (simp add: search_page_def Let_def)
qed


lemma search_first_throw:
  "reply 0 (first_request config eco) = Throw e \<Longrightarrow>
   \<exists>st. search fuel reply config eco = Some (st, Throw e) \<and> offsets st = [0]"
  by (simp add: search_def search_page_def search_init_def first_request_def offsets_def Let_def)

lemma search_first_return:
  assumes "reply 0 (first_request config eco) = Return page"
  obtains st0 where
    "search_page reply config eco search_init 0 = (st0, Return (total page))"
    "offsets st0 = [0]"
    "length (dict_values (cache st0)) = card ((\<lambda>object. name (package object)) ` set (objects page))"
proof -
  let ?st0 = "fst (search_page reply config eco search_init 0)"
  have 1: "search_page reply config eco search_init 0 = (?st0, Return (total page))"
    using assms by (simp add: search_page_def search_init_def first_request_def Let_def)
  have 2: "offsets ?st0 = [0]"
    using search_page_offsets [of reply config eco search_init 0]
    by (simp add: search_init_def offsets_def)
  have "cache ?st0 = fold (\<lambda>object c. dict_set c (name (package object)) object) (objects page) []"
    using assms by (simp add: search_page_def search_init_def first_request_def Let_def)
  then have 3: "length (dict_values (cache ?st0))
                  = card ((\<lambda>object. name (package object)) ` set (objects page))"
    using fold_dict_set_length [of "[]" "\<lambda>object. name (package object)" "objects page"]
    by (simp add: dict_values_def)
  from 1 2 3 show thesis by (rule that)
qed

lemma search_some:
  assumes "search_page reply config eco search_init 0 = (st0, Return tot)"
    and "search_loop fuel reply config eco tot (int (length (dict_values (cache st0)))) st0 = Some (st, r)"
  shows "\<exists>r'. search fuel reply config eco = Some (st, r')"
  using assms by (cases r) (simp_all add: search_def)

lemma search_none:
  assumes "search_page reply config eco search_init 0 = (st0, Return tot)"
    and "search_loop fuel reply config eco tot (int (length (dict_values (cache st0)))) st0 = None"
  shows "search fuel reply config eco = None"
  using assms by (simp add: search_def)

text \<open>
  Claim C4. With the default \<open>step = 250\<close> and \<open>margin = 25\<close>, when the first page
  reports \<open>total = 300\<close> and carries 250 distinct package names, \<^verbatim>\<open>search\<close> sends
  exactly two page requests, at offsets 0 and 225, whatever the second page holds.
\<close>

theorem search_two_pages:
  assumes cfg: "cfg_step config = 250" "cfg_margin config = 25"
    and first: "reply 0 (first_request config eco) = Return page"
    and tot: "total page = 300"
    and len: "length (objects page) = 250"
    and dist: "distinct (map (\<lambda>object. name (package object)) (objects page))"
    and fuel: "2 \<le> fuel"
  shows "\<exists>st r. search fuel reply config eco = Some (st, r) \<and> offsets st = [0, 225]"
proof -
  from first obtain st0 where st0:
    "search_page reply config eco search_init 0 = (st0, Return (total page))"
    "offsets st0 = [0]"
    "length (dict_values (cache st0)) = card ((\<lambda>object. name (package object)) ` set (objects page))"
    by (rule search_first_return)
  have "card ((\<lambda>object. name (package object)) ` set (objects page))
          = length (map (\<lambda>object. name (package object)) (objects page))"
    using distinct_card [OF dist] by simp
  with st0(3) len have size0: "int (length (dict_values (cache st0))) = 250" by simp
  from fuel obtain f where f: "fuel = Suc (Suc f)"
    by (metis Suc_le_D numeral_2_eq_2 Suc_le_mono)
  obtain st1 r1 where sp: "search_page reply config eco st0 225 = (st1, r1)"
    by (cases "search_page reply config eco st0 225")
  have off1: "offsets st1 = [0, 225]"
    using search_page_offsets [of reply config eco st0 225] sp st0(2) by simp
  have "search_loop fuel reply config eco 300 250 st0 = Some (st1, case r1 of Throw e \<Rightarrow> Throw e | Return _ \<Rightarrow> Return ())"
    using sp cfg by (cases r1) (simp_all add: f)
  with st0(1) size0 tot obtain r' where "search fuel reply config eco = Some (st1, r')"
    using search_some [of reply config eco st0 "total page" fuel st1] by auto
  with off1 show ?thesis by blast
qed


lemma example_page_distinct:
  "distinct (map (\<lambda>object. name (package object)) (objects example_page))"
proof -
  have "inj_on (\<lambda>i. ''plugin-'' @ replicate i CHR ''x'') (set [0..<250])"
    by (rule inj_onI) (metis length_replicate same_append_eq)
  then show ?thesis
    by (simp add: example_page_def example_hit_def comp_def distinct_map)
qed

theorem search_two_pages_witness:
  "cfg_step default_config = 250 \<and> cfg_margin default_config = 25
   \<and> example_replies 0 (first_request default_config example_eco) = Return example_page
   \<and> total example_page = 300 \<and> length (objects example_page) = 250
   \<and> distinct (map (\<lambda>object. name (package object)) (objects example_page))
   \<and> (\<exists>st r. search 2 example_replies default_config example_eco = Some (st, r)
          \<and> offsets st = [0, 225])"
proof -
  have 1: "cfg_step default_config = 250" "cfg_margin default_config = 25"
    by (simp_all add: cfg_step_def cfg_margin_def default_config_def)
  have 2: "example_replies 0 (first_request default_config example_eco) = Return example_page"
    by (simp add: example_replies_def)
  have 3: "total example_page = 300" "length (objects example_page) = 250"
    by (simp_all add: example_page_def)
  have 4: "(2::nat) \<le> 2" by simp
  from search_two_pages [where reply = example_replies and config = default_config and eco = example_eco
        and page = example_page and fuel = 2, OF 1 2 3 example_page_distinct 4]
    1 2 3 example_page_distinct
  show ?thesis by blast
qed

text \<open>
  Claim C10. When \<open>step > margin\<close>, \<^verbatim>\<open>search\<close> returns for every sequence of
  replies once the fuel is large enough; each request of the loop is
  \<open>step - margin\<close> further than the one before, whatever the replies add to the
  cache; and with a first reply of total \<open>T \<ge> 0\<close> at most
  \<open>1 + \<lceil>T / (step - margin)\<rceil>\<close> requests are sent. When \<open>margin \<ge> step\<close>, no reply
  throws and the first page has fewer distinct names than its total, \<^verbatim>\<open>search\<close>
  returns for no amount of fuel.
\<close>

theorem search_terminates_iff_progress:
  "(cfg_margin config < cfg_step config \<longrightarrow>
      (\<exists>N. \<forall>fuel\<ge>N. \<exists>st r. search fuel reply config eco = Some (st, r)
          \<and> (\<forall>i. Suc (Suc i) < length (offsets st) \<longrightarrow>
                 offsets st ! Suc (Suc i) = offsets st ! Suc i + (cfg_step config - cfg_margin config))
          \<and> (\<forall>page. reply 0 (first_request config eco) = Return page \<and> 0 \<le> total page \<longrightarrow>
                 int (length (sent st))
                   \<le> 1 + \<lceil>real_of_int (total page) / real_of_int (cfg_step config - cfg_margin config)\<rceil>)))
   \<and> (cfg_step config \<le> cfg_margin config
        \<and> (\<forall>k req. \<exists>page. reply k req = Return page)
        \<and> (\<exists>page. reply 0 (first_request config eco) = Return page
              \<and> int (card ((\<lambda>object. name (package object)) ` set (objects page))) < total page)
        \<longrightarrow> (\<forall>fuel. search fuel reply config eco = None))"
proof (intro conjI impI)
  let ?d = "cfg_step config - cfg_margin config"
  assume d: "cfg_margin config < cfg_step config"
  show "\<exists>N. \<forall>fuel\<ge>N. \<exists>st r. search fuel reply config eco = Some (st, r)
          \<and> (\<forall>i. Suc (Suc i) < length (offsets st) \<longrightarrow>
                 offsets st ! Suc (Suc i) = offsets st ! Suc i + ?d)
          \<and> (\<forall>page. reply 0 (first_request config eco) = Return page \<and> 0 \<le> total page \<longrightarrow>
                 int (length (sent st)) \<le> 1 + \<lceil>real_of_int (total page) / real_of_int ?d\<rceil>)"
  proof (cases "reply 0 (first_request config eco)")
    case (Throw e)
    have "\<forall>fuel\<ge>0. \<exists>st r. search fuel reply config eco = Some (st, r)
          \<and> (\<forall>i. Suc (Suc i) < length (offsets st) \<longrightarrow>
                 offsets st ! Suc (Suc i) = offsets st ! Suc i + ?d)
          \<and> (\<forall>page. reply 0 (first_request config eco) = Return page \<and> 0 \<le> total page \<longrightarrow>
                 int (length (sent st)) \<le> 1 + \<lceil>real_of_int (total page) / real_of_int ?d\<rceil>)"
    proof (intro allI impI)
      fix fuel :: nat
      from search_first_throw [where reply = reply and config = config and eco = eco and e = e and fuel = fuel, OF Throw]
      obtain st where
        "search fuel reply config eco = Some (st, Throw e)" "offsets st = [0]" by blast
      with Throw show "\<exists>st r. search fuel reply config eco = Some (st, r)
          \<and> (\<forall>i. Suc (Suc i) < length (offsets st) \<longrightarrow>
                 offsets st ! Suc (Suc i) = offsets st ! Suc i + ?d)
          \<and> (\<forall>page. reply 0 (first_request config eco) = Return page \<and> 0 \<le> total page \<longrightarrow>
                 int (length (sent st)) \<le> 1 + \<lceil>real_of_int (total page) / real_of_int ?d\<rceil>)"
        by (intro exI [of _ st] exI [of _ "Throw e"]) simp
    qed
    then show ?thesis by blast
  next
    case (Return page)
    from Return obtain st0 where st0:
      "search_page reply config eco search_init 0 = (st0, Return (total page))"
      "offsets st0 = [0]"
      "length (dict_values (cache st0)) = card ((\<lambda>object. name (package object)) ` set (objects page))"
      by (rule search_first_return)
    let ?n0 = "int (length (dict_values (cache st0)))"
    let ?T = "total page"
    have "\<forall>fuel\<ge>Suc (nat (?T - ?n0)). \<exists>st r. search fuel reply config eco = Some (st, r)
          \<and> (\<forall>i. Suc (Suc i) < length (offsets st) \<longrightarrow>
                 offsets st ! Suc (Suc i) = offsets st ! Suc i + ?d)
          \<and> (\<forall>page. reply 0 (first_request config eco) = Return page \<and> 0 \<le> total page \<longrightarrow>
                 int (length (sent st)) \<le> 1 + \<lceil>real_of_int (total page) / real_of_int ?d\<rceil>)"
    proof (intro allI impI)
      fix fuel assume "Suc (nat (?T - ?n0)) \<le> fuel"
      then have "nat (?T - ?n0) < fuel" by simp
      with d have "search_loop fuel reply config eco ?T ?n0 st0 \<noteq> None"
        by (intro search_loop_terminates) simp_all
      then obtain st r where lp: "search_loop fuel reply config eco ?T ?n0 st0 = Some (st, r)"
        by (cases "search_loop fuel reply config eco ?T ?n0 st0") auto
      from search_some [OF st0(1) lp] obtain r' where s: "search fuel reply config eco = Some (st, r')"
        by blast
      from search_loop_offsets [OF lp] st0(2) obtain m where
        m: "offsets st = 0 # map (\<lambda>k. ?n0 - cfg_margin config + int k * ?d) [0..<m]"
           "\<forall>k<m. ?n0 + int k * ?d < ?T" by auto
      have adv: "\<forall>i. Suc (Suc i) < length (offsets st) \<longrightarrow>
                 offsets st ! Suc (Suc i) = offsets st ! Suc i + ?d"
        by (simp add: m(1) algebra_simps)
      have len: "length (sent st) = Suc m"
        using m(1) by (simp add: offsets_def) (metis length_Cons length_map length_upt minus_nat.diff_0)
      have bound: "int (length (sent st)) \<le> 1 + \<lceil>real_of_int ?T / real_of_int ?d\<rceil>" if T0: "0 \<le> ?T"
      proof (cases m)
        case 0
        have "0 \<le> real_of_int ?T / real_of_int ?d" using T0 d by simp
        then have "0 \<le> \<lceil>real_of_int ?T / real_of_int ?d\<rceil>" by linarith
        with 0 len show ?thesis by simp
      next
        case (Suc j)
        with m(2) have "?n0 + int j * ?d < ?T" by simp
        then have "int j * ?d < ?T" by linarith
        then have "real_of_int (int j * ?d) < real_of_int ?T" by linarith
        then have "real_of_int (int j) * real_of_int ?d < real_of_int ?T" by simp
        moreover have "0 < real_of_int ?d" using d by simp
        ultimately have "real_of_int (int j) < real_of_int ?T / real_of_int ?d"
          by (simp add: pos_less_divide_eq)
        then have "int j < \<lceil>real_of_int ?T / real_of_int ?d\<rceil>" by linarith
        with Suc len show ?thesis by simp
      qed
      from s adv bound Return
      show "\<exists>st r. search fuel reply config eco = Some (st, r)
          \<and> (\<forall>i. Suc (Suc i) < length (offsets st) \<longrightarrow>
                 offsets st ! Suc (Suc i) = offsets st ! Suc i + ?d)
          \<and> (\<forall>page. reply 0 (first_request config eco) = Return page \<and> 0 \<le> total page \<longrightarrow>
                 int (length (sent st)) \<le> 1 + \<lceil>real_of_int (total page) / real_of_int ?d\<rceil>)"
        by (intro exI [of _ st] exI [of _ r']) auto
    qed
    then show ?thesis by blast
  qed
next
  assume h: "cfg_step config \<le> cfg_margin config
        \<and> (\<forall>k req. \<exists>page. reply k req = Return page)
        \<and> (\<exists>page. reply 0 (first_request config eco) = Return page
              \<and> int (card ((\<lambda>object. name (package object)) ` set (objects page))) < total page)"
  then obtain page where pg: "reply 0 (first_request config eco) = Return page"
    "int (card ((\<lambda>object. name (package object)) ` set (objects page))) < total page" by blast
  from pg(1) obtain st0 where st0:
    "search_page reply config eco search_init 0 = (st0, Return (total page))"
    "offsets st0 = [0]"
    "length (dict_values (cache st0)) = card ((\<lambda>object. name (package object)) ` set (objects page))"
    by (rule search_first_return)
  show "\<forall>fuel. search fuel reply config eco = None"
  proof
    fix fuel
    have "search_loop fuel reply config eco (total page) (int (length (dict_values (cache st0)))) st0 = None"
      using h pg(2) st0(3) by (intro search_loop_diverges) auto
    with st0(1) show "search fuel reply config eco = None" by (rule search_none)
  qed
qed


lemma example_page_card:
  "card ((\<lambda>object. name (package object)) ` set (objects example_page)) = 250"
proof -
  have "card (set (map (\<lambda>object. name (package object)) (objects example_page)))
          = length (map (\<lambda>object. name (package object)) (objects example_page))"
    using example_page_distinct by (rule distinct_card)
  moreover have "length (objects example_page) = 250" by (simp add: example_page_def)
  ultimately show ?thesis by (simp only: set_map length_map)
qed

theorem search_terminates_iff_progress_witness:
  "cfg_margin default_config < cfg_step default_config
   \<and> (\<exists>N. \<forall>fuel\<ge>N. \<exists>st r. search fuel example_replies default_config example_eco = Some (st, r)
          \<and> int (length (sent st)) \<le> 3)
   \<and> cfg_step stuck_config \<le> cfg_margin stuck_config
   \<and> (\<forall>k req. \<exists>page. example_replies k req = Return page)
   \<and> (\<forall>fuel. search fuel example_replies stuck_config example_eco = None)"
proof -
  have d: "cfg_margin default_config < cfg_step default_config"
    by (simp add: cfg_step_def cfg_margin_def default_config_def)
  have r: "example_replies 0 (first_request default_config example_eco) = Return example_page"
    by (simp add: example_replies_def)
  have c: "\<lceil>real_of_int (total example_page)
             / real_of_int (cfg_step default_config - cfg_margin default_config)\<rceil> = 2"
    by (simp add: example_page_def cfg_step_def cfg_margin_def default_config_def ceiling_eq_iff)
  have t: "0 \<le> total example_page" by (simp add: example_page_def)
  from search_terminates_iff_progress
         [where config = default_config and reply = example_replies and eco = example_eco] d
  obtain N where N: "\<forall>fuel\<ge>N. \<exists>st r. search fuel example_replies default_config example_eco = Some (st, r)
          \<and> (\<forall>page. example_replies 0 (first_request default_config example_eco) = Return page
                  \<and> 0 \<le> total page \<longrightarrow>
                 int (length (sent st))
                   \<le> 1 + \<lceil>real_of_int (total page)
                            / real_of_int (cfg_step default_config - cfg_margin default_config)\<rceil>)"
    by blast
  have A: "\<exists>N. \<forall>fuel\<ge>N. \<exists>st r. search fuel example_replies default_config example_eco = Some (st, r)
          \<and> int (length (sent st)) \<le> 3"
  proof (intro exI [of _ N] allI impI)
    fix fuel assume "N \<le> fuel"
    with N obtain st r' where
      s: "search fuel example_replies default_config example_eco = Some (st, r')"
      and b: "\<forall>page. example_replies 0 (first_request default_config example_eco) = Return page
                  \<and> 0 \<le> total page \<longrightarrow>
                 int (length (sent st))
                   \<le> 1 + \<lceil>real_of_int (total page)
                            / real_of_int (cfg_step default_config - cfg_margin default_config)\<rceil>"
      by blast
    from b r t have "int (length (sent st)) \<le> 1 + \<lceil>real_of_int (total example_page)
             / real_of_int (cfg_step default_config - cfg_margin default_config)\<rceil>" by blast
    with c have "int (length (sent st)) \<le> 3" by simp
    with s show "\<exists>st r. search fuel example_replies default_config example_eco = Some (st, r)
          \<and> int (length (sent st)) \<le> 3" by blast
  qed
  have s1: "cfg_step stuck_config \<le> cfg_margin stuck_config"
    by (simp add: cfg_step_def cfg_margin_def stuck_config_def)
  have s2: "\<forall>k req. \<exists>page. example_replies k req = Return page"
    by (simp add: example_replies_def)
  have s3: "\<exists>page. example_replies 0 (first_request stuck_config example_eco) = Return page
              \<and> int (card ((\<lambda>object. name (package object)) ` set (objects page))) < total page"
    by (intro exI [of _ example_page]) (simp add: example_replies_def example_page_card, simp add: example_page_def)
  from search_terminates_iff_progress
         [where config = stuck_config and reply = example_replies and eco = example_eco] s1 s2 s3
  have B: "\<forall>fuel. search fuel example_replies stuck_config example_eco = None" by blast
  from d A s1 s2 B show ?thesis by blast
qed


subsection \<open>Version order and the latest version\<close>



lemma compareIdentifiers_flip: "compareIdentifiers b a = - compareIdentifiers a b"
  by (cases a; cases b) auto

lemma compareIdentifiers_eq: "compareIdentifiers a b = 0 \<longleftrightarrow> a = b"
  by (cases a; cases b) auto

lemma compareIdentifiers_neg:
  "compareIdentifiers a b < 0 \<longleftrightarrow>
     (case a of
        Num x \<Rightarrow> (case b of Num y \<Rightarrow> x < y | Alnum y \<Rightarrow> True)
      | Alnum x \<Rightarrow> (case b of Num y \<Rightarrow> False | Alnum y \<Rightarrow> x < y))"
  by (cases a; cases b) simp_all

lemma compareIdentifiers_trans_strict:
  assumes "compareIdentifiers a b < 0" "compareIdentifiers b c < 0"
  shows "compareIdentifiers a c < 0"
proof (cases a)
  case (Num x)
  show ?thesis
  proof (cases c)
    case (Num z)
    with assms \<open>a = Num x\<close> obtain y where "b = Num y" "x < y" "y < z"
      by (cases b) (auto split: if_splits)
    then have "x < z" by simp
    with Num \<open>a = Num x\<close> show ?thesis by (simp add: compareIdentifiers_neg)
  next
    case (Alnum z)
    with \<open>a = Num x\<close> show ?thesis by (simp add: compareIdentifiers_neg)
  qed
next
  case (Alnum x)
  with assms obtain y where y: "b = Alnum y" "x < y"
    by (cases b) (auto split: if_splits)
  with assms(2) obtain z where z: "c = Alnum z" "y < z"
    by (cases c) (auto split: if_splits)
  from y(2) z(2) have "x < z" by (rule less_trans)
  with Alnum z(1) show ?thesis by (simp add: compareIdentifiers_neg)
qed

lemma comparePreLoop_flip: "comparePreLoop ys xs = - comparePreLoop xs ys"
proof (induction xs ys rule: comparePreLoop.induct)
  case (4 a as b bs)
  then show ?case using compareIdentifiers_flip [of b a] by auto
qed simp_all

lemma comparePreLoop_eq: "comparePreLoop xs ys = 0 \<longleftrightarrow> xs = ys"
  by (induction xs ys rule: comparePreLoop.induct) (auto simp: compareIdentifiers_eq)

lemma comparePreLoop_trans:
  "comparePreLoop xs ys \<le> 0 \<Longrightarrow> comparePreLoop ys zs \<le> 0 \<Longrightarrow> comparePreLoop xs zs \<le> 0"
proof (induction xs ys arbitrary: zs rule: comparePreLoop.induct)
  case 1
  then show ?case by simp
next
  case (2 a as)
  then show ?case by simp
next
  case (3 b bs)
  then show ?case by (cases zs) auto
next
  case (4 a as b bs)
  show ?case
  proof (cases zs)
    case Nil
    with 4 show ?thesis by simp
  next
    case (Cons c cs)
    show ?thesis
    proof (cases "a = b")
      case True
      with 4 Cons show ?thesis by (auto split: if_splits)
    next
      case ab: False
      show ?thesis
      proof (cases "b = c")
        case True
        with 4 Cons ab show ?thesis by auto
      next
        case bc: False
        from 4(2) ab have 1: "compareIdentifiers a b < 0"
          using compareIdentifiers_eq [of a b] by (simp add: less_le)
        from 4(3) bc Cons have 2: "compareIdentifiers b c < 0"
          using compareIdentifiers_eq [of b c] by (simp add: less_le)
        from compareIdentifiers_trans_strict [OF 1 2] have 3: "compareIdentifiers a c < 0" .
        then have "a \<noteq> c" using compareIdentifiers_eq [of a c] by auto
        with 3 Cons show ?thesis by simp
      qed
    qed
  qed
qed

lemma compareNumbers_simps:
  "compareNumbers a b \<le> 0 \<longleftrightarrow> a \<le> b" "compareNumbers a b = 0 \<longleftrightarrow> a = b"
  "compareNumbers a b \<noteq> 0 \<longleftrightarrow> a \<noteq> b"
  by (auto simp: compareNumbers_def)

lemma compareMain_flip: "compareMain b a = - compareMain a b"
  by (auto simp: compareMain_def compareNumbers_def)

lemma compareMain_zero:
  "compareMain a b = 0 \<longleftrightarrow> major a = major b \<and> minor a = minor b \<and> patch a = patch b"
  by (auto simp: compareMain_def compareNumbers_def)

lemma compareMain_neg:
  "compareMain a b < 0 \<longleftrightarrow>
     major a < major b \<or> (major a = major b \<and> (minor a < minor b \<or> (minor a = minor b \<and> patch a < patch b)))"
  by (auto simp: compareMain_def compareNumbers_def)

lemma comparePre_flip: "comparePre b a = - comparePre a b"
  using comparePreLoop_flip [of "prerelease b" "prerelease a"]
  by (auto simp: comparePre_def)

lemma comparePre_trans:
  assumes "comparePre a b \<le> 0" "comparePre b c \<le> 0"
  shows "comparePre a c \<le> 0"
proof (cases "prerelease a = []")
  case True
  with assms(1) have "prerelease b = []" by (simp add: comparePre_def split: if_splits)
  with assms(2) have "prerelease c = []" by (simp add: comparePre_def split: if_splits)
  with True show ?thesis by (simp add: comparePre_def)
next
  case a: False
  show ?thesis
  proof (cases "prerelease c = []")
    case True
    with a show ?thesis by (simp add: comparePre_def)
  next
    case c: False
    show ?thesis
    proof (cases "prerelease b = []")
      case True
      with assms(2) c show ?thesis by (simp add: comparePre_def)
    next
      case b: False
      from assms a b c have "comparePreLoop (prerelease a) (prerelease b) \<le> 0"
        "comparePreLoop (prerelease b) (prerelease c) \<le> 0"
        by (simp_all add: comparePre_def)
      then have "comparePreLoop (prerelease a) (prerelease c) \<le> 0"
        by (rule comparePreLoop_trans)
      with a c show ?thesis by (simp add: comparePre_def)
    qed
  qed
qed

lemma semver_compare_flip: "semver_compare b a = - semver_compare a b"
  using compareMain_flip [of b a] comparePre_flip [of b a]
  by (auto simp: semver_compare_def)

lemma semver_compare_le:
  "semver_compare a b \<le> 0 \<longleftrightarrow> compareMain a b < 0 \<or> (compareMain a b = 0 \<and> comparePre a b \<le> 0)"
  by (auto simp: semver_compare_def)

lemma semver_compare_trans:
  assumes "semver_compare a b \<le> 0" "semver_compare b c \<le> 0"
  shows "semver_compare a c \<le> 0"
proof -
  from assms have ab: "compareMain a b < 0 \<or> (compareMain a b = 0 \<and> comparePre a b \<le> 0)"
    and bc: "compareMain b c < 0 \<or> (compareMain b c = 0 \<and> comparePre b c \<le> 0)"
    by (simp_all add: semver_compare_le)
  then have "compareMain a c < 0 \<or> (compareMain a c = 0 \<and> comparePre a c \<le> 0)"
    using comparePre_trans [of a b c]
    by (auto simp: compareMain_zero compareMain_neg)
  then show ?thesis by (simp add: semver_compare_le)
qed


lemma semver_compare_total: "semver_compare a b \<le> 0 \<or> semver_compare b a \<le> 0"
  using semver_compare_flip [of a b] by linarith

lemma set_insert_by: "set (insert_by cmp x ys) = insert x (set ys)"
  by (induction ys) auto

lemma set_array_sort: "set (array_sort cmp xs) = set xs"
  by (induction xs) (simp_all add: array_sort_def set_insert_by)

lemma length_insert_by: "length (insert_by cmp x ys) = Suc (length ys)"
  by (induction ys) auto

lemma length_array_sort: "length (array_sort cmp xs) = length xs"
  by (induction xs) (simp_all add: array_sort_def length_insert_by)

lemma sorted_insert_by:
  assumes total: "\<And>a b. cmp a b \<le> 0 \<or> cmp b a \<le> 0"
    and trans: "\<And>a b c. cmp a b \<le> 0 \<Longrightarrow> cmp b c \<le> 0 \<Longrightarrow> cmp a c \<le> 0"
    and "sorted_wrt (\<lambda>a b. cmp a b \<le> 0) ys"
  shows "sorted_wrt (\<lambda>a b. cmp a b \<le> 0) (insert_by cmp x ys)"
  using assms(3)
proof (induction ys)
  case Nil
  then show ?case by simp
next
  case (Cons y ys)
  show ?case
  proof (cases "cmp x y \<le> 0")
    case True
    have "\<forall>z\<in>set ys. cmp x z \<le> 0"
    proof
      fix z assume "z \<in> set ys"
      with Cons.prems have "cmp y z \<le> 0" by simp
      with True show "cmp x z \<le> 0" by (rule trans)
    qed
    with True Cons.prems show ?thesis by simp
  next
    case False
    with total [of x y] have "cmp y x \<le> 0" by simp
    with False Cons show ?thesis by (simp add: set_insert_by)
  qed
qed

lemma sorted_array_sort:
  assumes "\<And>a b. cmp a b \<le> 0 \<or> cmp b a \<le> 0"
    and "\<And>a b c. cmp a b \<le> 0 \<Longrightarrow> cmp b c \<le> 0 \<Longrightarrow> cmp a c \<le> 0"
  shows "sorted_wrt (\<lambda>a b. cmp a b \<le> 0) (array_sort cmp xs)"
proof (induction xs)
  case Nil
  then show ?case by (simp add: array_sort_def)
next
  case (Cons x xs)
  have "array_sort cmp (x # xs) = insert_by cmp x (array_sort cmp xs)"
    by (simp add: array_sort_def)
  with sorted_insert_by [of cmp "array_sort cmp xs" x, OF assms Cons] show ?case by simp
qed

lemma sorted_versions_descending:
  "sorted_wrt (\<lambda>a b. semver_compare (version b) (version a) \<le> 0) (sorted_versions reg)"
  unfolding sorted_versions_def
proof (rule sorted_array_sort)
  fix a b :: RemotePackage
  show "semver_compare (version b) (version a) \<le> 0 \<or> semver_compare (version a) (version b) \<le> 0"
    by (rule semver_compare_total)
next
  fix a b c :: RemotePackage
  assume "semver_compare (version b) (version a) \<le> 0" "semver_compare (version c) (version b) \<le> 0"
  then show "semver_compare (version c) (version a) \<le> 0"
    using semver_compare_trans by blast
qed

lemma set_sorted_versions: "set (sorted_versions reg) = snd ` set (reg_versions reg)"
  by (simp add: sorted_versions_def set_array_sort)

lemma semver_compare_refl: "semver_compare a a \<le> 0"
  using semver_compare_total [of a a] by simp

text \<open>
  The selection of \<^verbatim>\<open>remote.ts\<close>: the version taken as latest is not deprecated and
  no version that is not deprecated compares above it; nothing is selected exactly
  when every version is deprecated.
\<close>

lemma select_latest_highest:
  assumes "select_latest (sorted_versions reg) = Some latest"
  shows "latest \<in> snd ` set (reg_versions reg)"
    and "\<not> truthy (deprecated latest)"
    and "\<forall>v \<in> snd ` set (reg_versions reg).
           \<not> truthy (deprecated v) \<longrightarrow> semver_compare (version v) (version latest) \<le> 0"
proof -
  let ?act = "filter (\<lambda>item. \<not> truthy (deprecated item)) (sorted_versions reg)"
  from assms obtain rest where act: "?act = latest # rest"
    by (auto simp: select_latest_def split: list.splits)
  then have "latest \<in> set ?act" by simp
  then show "latest \<in> snd ` set (reg_versions reg)" "\<not> truthy (deprecated latest)"
    by (simp_all add: set_sorted_versions)
  have "sorted_wrt (\<lambda>a b. semver_compare (version b) (version a) \<le> 0) ?act"
    using sorted_versions_descending by (rule sorted_wrt_filter)
  with act have rest: "\<forall>v\<in>set rest. semver_compare (version v) (version latest) \<le> 0" by simp
  show "\<forall>v \<in> snd ` set (reg_versions reg).
           \<not> truthy (deprecated v) \<longrightarrow> semver_compare (version v) (version latest) \<le> 0"
  proof (intro ballI impI)
    fix v assume "v \<in> snd ` set (reg_versions reg)" "\<not> truthy (deprecated v)"
    then have "v \<in> set ?act" by (simp add: set_sorted_versions)
    with act have "v = latest \<or> v \<in> set rest" by simp
    with rest show "semver_compare (version v) (version latest) \<le> 0"
      using semver_compare_refl by blast
  qed
qed

lemma select_latest_none:
  "select_latest (sorted_versions reg) = None
     \<longleftrightarrow> (\<forall>v \<in> snd ` set (reg_versions reg). truthy (deprecated v))"
proof -
  have "select_latest (sorted_versions reg) = None
          \<longleftrightarrow> filter (\<lambda>item. \<not> truthy (deprecated item)) (sorted_versions reg) = []"
    by (simp add: select_latest_def split: list.splits)
  also have "\<dots> \<longleftrightarrow> (\<forall>v \<in> set (sorted_versions reg). truthy (deprecated v))"
    by (simp add: filter_empty_conv)
  finally show ?thesis by (simp only: set_sorted_versions)
qed

lemma loadPackage_all_deprecated:
  assumes "fetch base (''/'' @ name (package object)) = Return reg"
    and "\<forall>v \<in> snd ` set (reg_versions reg). truthy (deprecated v)"
  shows "loadPackage base fetch rs eco object
           = ([Requested base (Get (''/'' @ name (package object)))], object, Return None)"
  using assms select_latest_none [of reg] by (simp add: loadPackage_def)

lemma sorted_tagged_registry:
  "sorted_versions tagged_registry
     = [release (semver 2 0 0) (Some ''use 1.x''), release (semver 1 1 0) None, release (semver 1 0 0) None]"
  by (simp add: sorted_versions_def tagged_registry_def array_sort_def semver_compare_def
        compareMain_def compareNumbers_def comparePre_def semver_def release_def)


lemma example_hit_simps:
  "name (package (example_hit n)) = n" "date (package (example_hit n)) = ''2024-01-01''"
  "ignored (example_hit n) = False" "verified (example_hit n) = False"
  by (simp_all add: example_hit_def)

lemma example_fetch_foo: "example_fetch base ''/foo'' = Return tagged_registry"
  by (simp add: example_fetch_def)

lemma example_check: "check example_resolver eco meta = Some ''foo''"
  by (simp add: example_resolver_def)

lemma select_latest_tagged:
  "select_latest (sorted_versions tagged_registry) = Some (release (semver 1 1 0) None)"
  by (simp add: sorted_tagged_registry select_latest_def release_def truthy_def)

lemma loadPackage_tagged:
  "snd (snd (loadPackage base example_fetch example_resolver example_eco (example_hit ''foo'')))
     = Return (Some (sorted_versions tagged_registry))"
  by (simp add: loadPackage_def example_hit_simps example_fetch_foo select_latest_tagged
        example_check truthy_def Let_def split: prod.splits)

lemma select_tagged_deprecated: "select_tagged tagged_registry = None"
  by (simp add: select_tagged_def tagged_registry_def release_def truthy_def semver_def)

lemma select_tagged_follows_tag:
  assumes "map_of (reg_dist_tags reg) ''latest'' = Some v" "map_of (reg_versions reg) v = Some meta"
  shows "select_tagged reg = (if truthy (deprecated meta) then None else Some meta)"
  using assms by (simp add: select_tagged_def)

lemma loadPackage_cached_tagged:
  "loadPackage_cached (Some ''foo'') base example_fetch example_resolver example_eco (example_hit ''foo'')
     = ([Requested base (Get ''/foo'')], example_hit ''foo'', Return None)"
  by (simp add: loadPackage_cached_def example_fetch_foo select_tagged_deprecated)

text \<open>
  Claim C1, which the cache-enabled variant breaks. For the metadata
  \<open>tagged_registry\<close> (1.0.0, 1.1.0, and a deprecated 2.0.0 that the \<^verbatim>\<open>latest\<close> tag
  names) the claim selects 1.1.0, the highest version that is not deprecated, and so
  does \<^verbatim>\<open>loadPackage\<close> of \<^verbatim>\<open>remote.ts\<close>, which returns the version list. The
  cache-enabled \<^verbatim>\<open>loadPackage\<close> follows the tag to 2.0.0, finds it deprecated and
  returns nothing, even when its request is the right one.
\<close>

theorem loadPackage_cached_follows_deprecated_tag:
  "select_latest (sorted_versions tagged_registry) = Some (release (semver 1 1 0) None)
   \<and> snd (snd (loadPackage ''https://registry.npmjs.org'' example_fetch example_resolver example_eco
                  (example_hit ''foo'')))
       = Return (Some (sorted_versions tagged_registry))
   \<and> select_tagged tagged_registry = None
   \<and> loadPackage_cached (Some ''foo'') ''https://registry.npmjs.org'' example_fetch example_resolver
         example_eco (example_hit ''foo'')
       = ([Requested ''https://registry.npmjs.org'' (Get ''/foo'')], example_hit ''foo'', Return None)"
  using select_latest_tagged loadPackage_tagged select_tagged_deprecated loadPackage_cached_tagged
  by simp


subsection \<open>One task per search hit\<close>

lemma fired_append: "fired (xs @ ys) = fired xs @ fired ys"
  by (induction xs rule: fired.induct) simp_all

lemma sent_requests_append: "sent_requests (xs @ ys) = sent_requests xs @ sent_requests ys"
  by (induction xs rule: sent_requests.induct) simp_all

lemma classify_events:
  assumes "classify b rs eco reg versions latest sn object = (evs, object1)"
  shows "fired evs = []" and "sent_requests evs = []"
  using assms by (auto simp: classify_def Let_def)

lemma loadPackage_events:
  "fired (fst (loadPackage base fetch rs eco object)) = []"
  "sent_requests (fst (loadPackage base fetch rs eco object))
     = [(base, Get (''/'' @ name (package object)))]"
  by (auto simp: loadPackage_def Let_def dest: classify_events
        split: outcome.splits option.splits prod.splits)

lemma loadPackage_cached_events:
  "fired (fst (loadPackage_cached gn base fetch rs eco object)) = []"
  "sent_requests (fst (loadPackage_cached gn base fetch rs eco object))
     = (case gn of None \<Rightarrow> [] | Some n \<Rightarrow> [(base, Get (''/'' @ n))])"
  by (auto simp: loadPackage_cached_def Let_def dest: classify_events
        split: outcome.splits option.splits prod.splits)

lemma on_catch_fired:
  "fired (fst (on_catch mark opts evs object e))
     = fired evs @ [OnFailure (if mark then object\<lparr>ignored := True\<rparr> else object) e]"
  by (simp add: on_catch_def Let_def fired_append)

lemma on_catch_requests: "sent_requests (fst (on_catch mark opts evs object e)) = sent_requests evs"
  by (simp add: on_catch_def Let_def sent_requests_append)

lemma on_catch_settles:
  "onFailure opts (if mark then object\<lparr>ignored := True\<rparr> else object) e = Return ()
     \<Longrightarrow> snd (snd (on_catch mark opts evs object e)) = None"
  by (simp add: on_catch_def Let_def)


lemma rejections_none: "\<forall>t\<in>set ts. snd (snd t) = None \<Longrightarrow> rejections ts = []"
  by (induction ts) (auto simp: rejections_def map_filter_simps split: prod.splits)

lemma promise_all_fulfils: "rejections ts = [] \<Longrightarrow> promise_all ts = Return ()"
  by (simp add: promise_all_def)

lemma loadObject_settles:
  assumes "\<And>object vs. onSuccess opts object vs = Return ()"
    and "\<And>object. onSkipped opts object = Return ()"
    and "\<And>object e. onFailure opts object e = Return ()"
  shows "\<not> ignored object \<Longrightarrow> length (fired (fst (loadObject opts fetch rs eco object))) = 1"
    and "snd (snd (loadObject opts fetch rs eco object)) = None"
    and "snd (snd (loadPackage (registry opts) fetch rs eco object)) = Throw e \<Longrightarrow> \<not> ignored object \<Longrightarrow>
         fired (fst (loadObject opts fetch rs eco object)) = [OnFailure (object\<lparr>ignored := True\<rparr>) e]"
proof -
  obtain evs object1 r where lp: "loadPackage (registry opts) fetch rs eco object = (evs, object1, r)"
    by (cases "loadPackage (registry opts) fetch rs eco object") auto
  have f: "fired evs = []" using loadPackage_events(1) [of "registry opts" fetch rs eco object] lp by simp
  show "length (fired (fst (loadObject opts fetch rs eco object))) = 1" if "\<not> ignored object"
  proof (cases r)
    case (Throw e)
    with that lp f show ?thesis by (simp add: loadObject_def on_catch_fired)
  next
    case (Return vs)
    with that lp f assms show ?thesis
      by (cases vs) (simp_all add: loadObject_def Let_def fired_append)
  qed
  show "snd (snd (loadObject opts fetch rs eco object)) = None"
  proof (cases "ignored object")
    case True
    then show ?thesis by (simp add: loadObject_def)
  next
    case False
    show ?thesis
    proof (cases r)
      case (Throw e)
      with False lp assms(3) show ?thesis by (simp add: loadObject_def on_catch_def Let_def)
    next
      case (Return vs)
      with False lp assms show ?thesis by (cases vs) (simp_all add: loadObject_def Let_def)
    qed
  qed
  show "fired (fst (loadObject opts fetch rs eco object)) = [OnFailure (object\<lparr>ignored := True\<rparr>) e]"
    if "snd (snd (loadPackage (registry opts) fetch rs eco object)) = Throw e" "\<not> ignored object"
  proof -
    from that(1) lp have r: "r = Throw e" by simp
    have "object1 = object"
      using lp r by (auto simp: loadPackage_def Let_def split: outcome.splits option.splits prod.splits if_splits)
    with that(2) lp r f show ?thesis by (simp add: loadObject_def on_catch_fired)
  qed
qed

lemma loadObject_cached_settles:
  assumes "\<And>object vs. onSuccess opts object vs = Return ()"
    and "\<And>object. onSkipped opts object = Return ()"
    and "\<And>object e. onFailure opts object e = Return ()"
  shows "length (fired (fst (loadObject_cached gn opts sc fetch rs eco object))) = 1"
    and "snd (snd (loadObject_cached gn opts sc fetch rs eco object)) = None"
    and "searchCache sc = Some c \<Longrightarrow>
         Some (date (package object)) \<noteq> map_of (sc_packages c) (name (package object)) \<Longrightarrow>
         snd (snd (loadPackage_cached gn (registry opts) fetch rs eco object)) = Throw e \<Longrightarrow>
         fired (fst (loadObject_cached gn opts sc fetch rs eco object)) = [OnFailure object e]"
proof -
  obtain evs object1 r where
    lp: "loadPackage_cached gn (registry opts) fetch rs eco object = (evs, object1, r)"
    by (cases "loadPackage_cached gn (registry opts) fetch rs eco object") auto
  have f: "fired evs = []"
    using loadPackage_cached_events(1) [of gn "registry opts" fetch rs eco object] lp by simp
  show "length (fired (fst (loadObject_cached gn opts sc fetch rs eco object))) = 1"
  proof (cases r)
    case (Throw e)
    with lp f assms show ?thesis
      by (simp add: loadObject_cached_def on_catch_fired split: option.splits)
  next
    case (Return vs)
    with lp f assms show ?thesis
      by (cases vs) (simp_all add: loadObject_cached_def on_catch_fired fired_append split: option.splits)
  qed
  show "snd (snd (loadObject_cached gn opts sc fetch rs eco object)) = None"
  proof (cases r)
    case (Throw e)
    with lp assms show ?thesis
      by (simp add: loadObject_cached_def on_catch_def Let_def split: option.splits)
  next
    case (Return vs)
    with lp assms show ?thesis
      by (cases vs) (simp_all add: loadObject_cached_def on_catch_def Let_def split: option.splits)
  qed
  show "fired (fst (loadObject_cached gn opts sc fetch rs eco object)) = [OnFailure object e]"
    if "searchCache sc = Some c"
      "Some (date (package object)) \<noteq> map_of (sc_packages c) (name (package object))"
      "snd (snd (loadPackage_cached gn (registry opts) fetch rs eco object)) = Throw e"
  proof -
    from that(3) lp have r: "r = Throw e" by simp
    have "object1 = object"
      using lp r
      by (auto simp: loadPackage_cached_def Let_def
            split: outcome.splits option.splits prod.splits if_splits)
    with that(1,2) lp r f show ?thesis by (simp add: loadObject_cached_def on_catch_fired)
  qed
qed


text \<open>
  Claim C6 as the code has it. When no callback throws, a search hit that is not already
  marked \<^verbatim>\<open>ignored\<close> fires exactly one of the three callbacks in \<^verbatim>\<open>remote.ts\<close>, and
  every hit does in the cache-enabled variant; an exception of \<^verbatim>\<open>loadPackage\<close> is
  caught and goes to \<^verbatim>\<open>onFailure\<close>; no per-object task rejects, so the
  \<^verbatim>\<open>Promise.all\<close> of the ecosystem is fulfilled, after one settled task per hit.
\<close>

theorem one_callback_per_hit:
  assumes "\<And>object vs. onSuccess opts object vs = Return ()"
    and "\<And>object. onSkipped opts object = Return ()"
    and "\<And>object e. onFailure opts object e = Return ()"
  shows "(\<not> ignored object \<longrightarrow> length (fired (fst (loadObject opts fetch rs eco object))) = 1)
    \<and> (\<not> ignored object \<and> snd (snd (loadPackage (registry opts) fetch rs eco object)) = Throw e \<longrightarrow>
          fired (fst (loadObject opts fetch rs eco object)) = [OnFailure (object\<lparr>ignored := True\<rparr>) e])
    \<and> length (fired (fst (loadObject_cached gn opts sc fetch rs eco object))) = 1
    \<and> (\<forall>st ts r. loadEcosystem fuel opts reply fetch rs eco = Some (st, ts, r) \<longrightarrow>
          rejections ts = []
          \<and> (\<forall>objs. search fuel reply \<lparr>step = None, margin = None, timeout = None\<rparr> eco
                        = Some (st, Return objs) \<longrightarrow>
                 r = Return () \<and> ts = map (loadObject opts fetch rs eco) objs))
    \<and> (\<forall>st ts r. loadEcosystem_cached fuel gn opts sc reply fetch rs eco = Some (st, ts, r) \<longrightarrow>
          rejections ts = [])
    \<and> (\<forall>c. searchCache sc = Some c
            \<and> Some (date (package object)) \<noteq> map_of (sc_packages c) (name (package object))
            \<and> snd (snd (loadPackage_cached gn (registry opts) fetch rs eco object)) = Throw e \<longrightarrow>
          fired (fst (loadObject_cached gn opts sc fetch rs eco object)) = [OnFailure object e])
    \<and> (\<forall>st ts r objs. loadEcosystem_cached fuel gn opts sc reply fetch rs eco = Some (st, ts, r)
            \<and> search fuel reply
                  (case collect opts of None \<Rightarrow> \<lparr>step = None, margin = None, timeout = None\<rparr>
                   | Some cfg \<Rightarrow> cfg) eco = Some (st, Return objs) \<longrightarrow>
          r = Return () \<and> ts = map (loadObject_cached gn opts sc fetch rs eco) objs)"
proof (intro conjI allI impI)
  show "length (fired (fst (loadObject opts fetch rs eco object))) = 1" if "\<not> ignored object"
    using that by (rule loadObject_settles(1) [OF assms])
  show "fired (fst (loadObject opts fetch rs eco object)) = [OnFailure (object\<lparr>ignored := True\<rparr>) e]"
    if "\<not> ignored object \<and> snd (snd (loadPackage (registry opts) fetch rs eco object)) = Throw e"
    using that loadObject_settles(3) [OF assms] by blast
  show "length (fired (fst (loadObject_cached gn opts sc fetch rs eco object))) = 1"
    by (rule loadObject_cached_settles(1) [OF assms])
next
  fix st ts r
  assume le: "loadEcosystem fuel opts reply fetch rs eco = Some (st, ts, r)"
  have all: "\<forall>t\<in>set (map (loadObject opts fetch rs eco) objs). snd (snd t) = None" for objs
    using loadObject_settles(2) [OF assms] by simp
  from le show rj: "rejections ts = []"
    using rejections_none [OF all]
    by (auto simp: loadEcosystem_def Let_def rejections_def split: option.splits outcome.splits)
  fix objs
  assume "search fuel reply \<lparr>step = None, margin = None, timeout = None\<rparr> eco = Some (st, Return objs)"
  with le have ts: "ts = map (loadObject opts fetch rs eco) objs" and r: "r = promise_all ts"
    by (auto simp: loadEcosystem_def Let_def)
  from r rj show "r = Return ()" by (simp add: promise_all_fulfils)
  from ts show "ts = map (loadObject opts fetch rs eco) objs" .
next
  fix st ts r
  assume le: "loadEcosystem_cached fuel gn opts sc reply fetch rs eco = Some (st, ts, r)"
  have all: "\<forall>t\<in>set (map (loadObject_cached gn opts sc fetch rs eco) objs). snd (snd t) = None" for objs
    using loadObject_cached_settles(2) [OF assms] by simp
  from le show "rejections ts = []"
    using rejections_none [OF all]
    by (auto simp: loadEcosystem_cached_def Let_def rejections_def split: option.splits outcome.splits)
next
  fix c
  assume "searchCache sc = Some c
            \<and> Some (date (package object)) \<noteq> map_of (sc_packages c) (name (package object))
            \<and> snd (snd (loadPackage_cached gn (registry opts) fetch rs eco object)) = Throw e"
  then show "fired (fst (loadObject_cached gn opts sc fetch rs eco object)) = [OnFailure object e]"
    using loadObject_cached_settles(3) [OF assms] by blast
next
  fix st ts r objs
  assume h: "loadEcosystem_cached fuel gn opts sc reply fetch rs eco = Some (st, ts, r)
            \<and> search fuel reply
                  (case collect opts of None \<Rightarrow> \<lparr>step = None, margin = None, timeout = None\<rparr>
                   | Some cfg \<Rightarrow> cfg) eco = Some (st, Return objs)"
  then have ts: "ts = map (loadObject_cached gn opts sc fetch rs eco) objs" and r: "r = promise_all ts"
    by (auto simp: loadEcosystem_cached_def Let_def)
  have "\<forall>t\<in>set ts. snd (snd t) = None"
    using loadObject_cached_settles(2) [OF assms] ts by simp
  then have "rejections ts = []" by (rule rejections_none)
  with r show "r = Return ()" by (simp add: promise_all_fulfils)
  from ts show "ts = map (loadObject_cached gn opts sc fetch rs eco) objs" .
qed

lemma example_opts_simps:
  "onSuccess example_opts object vs = Return ()" "onSkipped example_opts object = Return ()"
  "onFailure example_opts object e = Return ()" "registry example_opts = ''https://registry.npmjs.org''"
  "cacheDir example_opts = None" "collect example_opts = None"
  by (simp_all add: example_opts_def)

theorem one_callback_per_hit_witness:
  "\<not> ignored (example_hit ''gone'')
   \<and> snd (snd (loadPackage (registry example_opts) example_fetch example_resolver example_eco
                  (example_hit ''gone''))) = Throw (RequestFailed ''not found'')
   \<and> fired (fst (loadObject example_opts example_fetch example_resolver example_eco (example_hit ''gone'')))
       = [OnFailure ((example_hit ''gone'')\<lparr>ignored := True\<rparr>) (RequestFailed ''not found'')]
   \<and> length (fired (fst (loadObject example_opts example_fetch example_resolver example_eco
                            (example_hit ''foo'')))) = 1
   \<and> length (fired (fst (loadObject_cached None example_opts warm_scanner example_fetch example_resolver
                            example_eco (example_hit ''foo'')))) = 1"
proof -
  have i: "\<not> ignored (example_hit ''gone'')" "\<not> ignored (example_hit ''foo'')"
    by (simp_all add: example_hit_simps)
  have t: "snd (snd (loadPackage (registry example_opts) example_fetch example_resolver example_eco
                  (example_hit ''gone''))) = Throw (RequestFailed ''not found'')"
    by (simp add: loadPackage_def example_fetch_def example_hit_simps)
  from one_callback_per_hit [where opts = example_opts and object = "example_hit ''gone''"
         and fetch = example_fetch and rs = example_resolver and eco = example_eco
         and e = "RequestFailed ''not found''", OF example_opts_simps(1-3)] i t
  have 1: "fired (fst (loadObject example_opts example_fetch example_resolver example_eco (example_hit ''gone'')))
       = [OnFailure ((example_hit ''gone'')\<lparr>ignored := True\<rparr>) (RequestFailed ''not found'')]"
    by blast
  from one_callback_per_hit [where opts = example_opts and object = "example_hit ''foo''"
         and fetch = example_fetch and rs = example_resolver and eco = example_eco
         and gn = None and sc = warm_scanner, OF example_opts_simps(1-3)] i
  have 2: "length (fired (fst (loadObject example_opts example_fetch example_resolver example_eco
                            (example_hit ''foo'')))) = 1"
    and 3: "length (fired (fst (loadObject_cached None example_opts warm_scanner example_fetch
                            example_resolver example_eco (example_hit ''foo'')))) = 1"
    by blast+
  from i t 1 2 3 show ?thesis by blast
qed

text \<open>
  Claim C6 as stated fails twice. A hit that the search returns with \<^verbatim>\<open>ignored\<close>
  set fires no callback in \<^verbatim>\<open>remote.ts\<close>; and when \<^verbatim>\<open>onSuccess\<close> throws, the
  \<^verbatim>\<open>catch\<close> block fires \<^verbatim>\<open>onFailure\<close> as well, two callbacks for one hit.
\<close>

theorem one_callback_counterexample:
  "fired (fst (loadObject example_opts example_fetch example_resolver example_eco
                 ((example_hit ''foo'')\<lparr>ignored := True\<rparr>))) = []
   \<and> length (fired (fst (loadObject throwing_opts example_fetch example_resolver example_eco
                            (example_hit ''foo'')))) = 2"
proof -
  have 1: "fired (fst (loadObject example_opts example_fetch example_resolver example_eco
                 ((example_hit ''foo'')\<lparr>ignored := True\<rparr>))) = []"
    by (simp add: loadObject_def)
  obtain evs object1 where lp:
    "loadPackage ''https://registry.npmjs.org'' example_fetch example_resolver example_eco (example_hit ''foo'')
       = (evs, object1, Return (Some (sorted_versions tagged_registry)))"
    using loadPackage_tagged [of "''https://registry.npmjs.org''"]
    by (cases "loadPackage ''https://registry.npmjs.org'' example_fetch example_resolver example_eco
                 (example_hit ''foo'')") auto
  have f: "fired evs = []"
    using loadPackage_events(1) [of "''https://registry.npmjs.org''" example_fetch example_resolver
            example_eco "example_hit ''foo''"] lp by simp
  have "length (fired (fst (loadObject throwing_opts example_fetch example_resolver example_eco
                            (example_hit ''foo'')))) = 2"
    using lp f
    by (simp add: loadObject_def throwing_opts_def example_opts_def example_hit_simps
          on_catch_fired fired_append)
  with 1 show ?thesis by blast
qed


subsection \<open>The snapshot cache\<close>

text \<open>
  Claim C2. In the cache-enabled scanner, a hit whose date equals the date the loaded
  snapshot records for its name sends no request and is left as it is; the first
  callback is \<^verbatim>\<open>onSuccess\<close> with the object of that name from the previous index and
  no version list or, when the index has none, \<^verbatim>\<open>onSkipped\<close> with the hit; and it is
  the only callback unless it throws.
\<close>

theorem cached_hit_not_refetched:
  assumes "searchCache sc = Some c"
    and "map_of (sc_packages c) (name (package object)) = Some (date (package object))"
  shows "sent_requests (fst (loadObject_cached gn opts sc fetch rs eco object)) = []
    \<and> fst (snd (loadObject_cached gn opts sc fetch rs eco object)) = object
    \<and> (case find (\<lambda>legacy. name (package legacy) = name (package object)) (objects (legacyResult sc)) of
          Some legacy \<Rightarrow>
            hd (fired (fst (loadObject_cached gn opts sc fetch rs eco object))) = OnSuccess legacy None
            \<and> (onSuccess opts legacy None = Return () \<longrightarrow>
                 fired (fst (loadObject_cached gn opts sc fetch rs eco object)) = [OnSuccess legacy None])
        | None \<Rightarrow>
            hd (fired (fst (loadObject_cached gn opts sc fetch rs eco object))) = OnSkipped object
            \<and> (onSkipped opts object = Return () \<longrightarrow>
                 fired (fst (loadObject_cached gn opts sc fetch rs eco object)) = [OnSkipped object]))"
proof (cases "find (\<lambda>legacy. name (package legacy) = name (package object)) (objects (legacyResult sc))")
  case None
  show ?thesis
  proof (cases "onSkipped opts object")
    case (Return u)
    with None assms show ?thesis by (simp add: loadObject_cached_def)
  next
    case (Throw e)
    with None assms show ?thesis by (simp add: loadObject_cached_def on_catch_def Let_def)
  qed
next
  case (Some legacy)
  show ?thesis
  proof (cases "onSuccess opts legacy None")
    case (Return u)
    with Some assms show ?thesis by (simp add: loadObject_cached_def)
  next
    case (Throw e)
    with Some assms show ?thesis by (simp add: loadObject_cached_def on_catch_def Let_def)
  qed
qed

theorem cached_hit_not_refetched_witness:
  "searchCache warm_scanner
     = Some \<lparr>sc_version = 1, sc_registry = ''https://registry.npmjs.org'',
             sc_packages = [(''bar'', ''2024-01-01'')]\<rparr>
   \<and> map_of [(''bar'', ''2024-01-01'')] (name (package (example_hit ''bar'')))
       = Some (date (package (example_hit ''bar'')))
   \<and> sent_requests (fst (loadObject_cached None example_opts warm_scanner example_fetch
                           example_resolver example_eco (example_hit ''bar''))) = []
   \<and> fired (fst (loadObject_cached None example_opts warm_scanner example_fetch
                    example_resolver example_eco (example_hit ''bar''))) = [OnSuccess legacy_bar None]"
proof -
  let ?c = "\<lparr>sc_version = 1, sc_registry = ''https://registry.npmjs.org'',
             sc_packages = [(''bar'', ''2024-01-01'')]\<rparr>"
  have 1: "searchCache warm_scanner = Some ?c" by (simp add: warm_scanner_def)
  have 2: "map_of (sc_packages ?c) (name (package (example_hit ''bar'')))
             = Some (date (package (example_hit ''bar'')))"
    by (simp add: example_hit_simps)
  have 3: "find (\<lambda>legacy. name (package legacy) = name (package (example_hit ''bar'')))
             (objects (legacyResult warm_scanner)) = Some legacy_bar"
    by (simp add: warm_scanner_def legacy_bar_def example_hit_simps)
  from cached_hit_not_refetched [where sc = warm_scanner and c = ?c and object = "example_hit ''bar''"
         and gn = None and opts = example_opts and fetch = example_fetch and rs = example_resolver
         and eco = example_eco, OF 1 2]
  have "sent_requests (fst (loadObject_cached None example_opts warm_scanner example_fetch
                           example_resolver example_eco (example_hit ''bar''))) = []"
    and "fired (fst (loadObject_cached None example_opts warm_scanner example_fetch
                    example_resolver example_eco (example_hit ''bar''))) = [OnSuccess legacy_bar None]"
    by (simp_all add: 3 example_opts_simps)
  with 1 2 show ?thesis by simp
qed

text \<open>
  Claim C7, which the cache-enabled variant breaks. The hit \<^verbatim>\<open>foo\<close> is not in the
  snapshot, so it is not served from the cache. \<^verbatim>\<open>loadPackage\<close> of \<^verbatim>\<open>remote.ts\<close>
  requests \<^verbatim>\<open>/foo\<close> from the registry. The cache-enabled \<^verbatim>\<open>loadPackage\<close> builds the
  path from \<^verbatim>\<open>name\<close>, which it does not bind: with nothing bound the hit goes to
  \<^verbatim>\<open>onFailure\<close> with a ReferenceError and no request is sent, and with a global
  \<^verbatim>\<open>name\<close> the request is for that value, not for the hit.
\<close>

theorem loadPackage_cached_requests_unbound_name:
  "sent_requests (fst (loadObject example_opts example_fetch example_resolver example_eco
                         (example_hit ''foo'')))
     = [(''https://registry.npmjs.org'', Get ''/foo'')]
   \<and> loadObject_cached None example_opts warm_scanner example_fetch example_resolver example_eco
         (example_hit ''foo'')
       = ([Called (OnFailure (example_hit ''foo'') ReferenceError)], example_hit ''foo'', None)
   \<and> sent_requests (fst (loadObject_cached (Some ''window'') example_opts warm_scanner example_fetch
                            example_resolver example_eco (example_hit ''foo'')))
       = [(''https://registry.npmjs.org'', Get ''/window'')]"
proof -
  obtain evs object1 where lp:
    "loadPackage ''https://registry.npmjs.org'' example_fetch example_resolver example_eco (example_hit ''foo'')
       = (evs, object1, Return (Some (sorted_versions tagged_registry)))"
    using loadPackage_tagged [of "''https://registry.npmjs.org''"]
    by (cases "loadPackage ''https://registry.npmjs.org'' example_fetch example_resolver example_eco
                 (example_hit ''foo'')") auto
  have "sent_requests evs = [(''https://registry.npmjs.org'', Get ''/foo'')]"
    using loadPackage_events(2) [of "''https://registry.npmjs.org''" example_fetch example_resolver
            example_eco "example_hit ''foo''"] lp by (simp add: example_hit_simps)
  then have 1: "sent_requests (fst (loadObject example_opts example_fetch example_resolver example_eco
                         (example_hit ''foo'')))
     = [(''https://registry.npmjs.org'', Get ''/foo'')]"
    using lp by (simp add: loadObject_def example_opts_simps example_hit_simps sent_requests_append)
  have 2: "loadObject_cached None example_opts warm_scanner example_fetch example_resolver example_eco
         (example_hit ''foo'')
       = ([Called (OnFailure (example_hit ''foo'') ReferenceError)], example_hit ''foo'', None)"
    by (simp add: loadObject_cached_def warm_scanner_def example_hit_simps loadPackage_cached_def
          on_catch_def example_opts_simps Let_def)
  have 3: "sent_requests (fst (loadObject_cached (Some ''window'') example_opts warm_scanner example_fetch
                            example_resolver example_eco (example_hit ''foo'')))
       = [(''https://registry.npmjs.org'', Get ''/window'')]"
    by (simp add: loadObject_cached_def warm_scanner_def example_hit_simps loadPackage_cached_def
          on_catch_def example_opts_simps example_fetch_def Let_def)
  from 1 2 3 show ?thesis by blast
qed

text \<open>
  What \<^verbatim>\<open>_initCache\<close> does: it never throws; it installs the snapshot when both
  files can be read, format version and registry match and the cache has its
  \<^verbatim>\<open>packages\<close>; otherwise it leaves the scanner as it was.
\<close>

lemma initCache_returns: "\<exists>sc1. initCache opts fs sc = Return sc1"
  by (simp add: initCache_def split: outcome.splits)

lemma initCache_trusted:
  assumes "cacheDir opts = Some dir" "dir \<noteq> []"
    and "read_cache fs (dir @ ''/cache.json'') = Return cached"
    and "read_index fs (dir @ ''/index.json'') = Return legacy"
    and "cf_version cached = cache_version" "cf_registry cached = registry opts"
    and "cf_packages cached = Some pkgs"
  shows "initCache opts fs sc
           = Return (sc\<lparr>searchCache := Some \<lparr>sc_version = cf_version cached,
                                               sc_registry = cf_registry cached, sc_packages = pkgs\<rparr>,
                         legacyResult := legacy\<rparr>)"
  using assms by (simp add: initCache_def initCache_try_def truthy_def)

lemma initCache_discards:
  assumes "initCache opts fs sc = Return sc1" "sc1 \<noteq> sc"
  shows "\<exists>dir cached legacy pkgs. cacheDir opts = Some dir \<and> dir \<noteq> []
           \<and> read_cache fs (dir @ ''/cache.json'') = Return cached
           \<and> read_index fs (dir @ ''/index.json'') = Return legacy
           \<and> cf_version cached = cache_version \<and> cf_registry cached = registry opts
           \<and> cf_packages cached = Some pkgs"
  using assms
  by (auto simp: initCache_def initCache_try_def truthy_def
        split: option.splits outcome.splits if_splits)

lemma initCache_good_files:
  "initCache (example_opts\<lparr>cacheDir := Some ''/var/cache''\<rparr>) good_files new_scanner
     = Return warm_scanner"
  by (simp add: initCache_def initCache_try_def truthy_def example_opts_def good_files_def
        cache_version_def new_scanner_def warm_scanner_def)

text \<open>
  Claim C8, which the code breaks after the snapshot is discarded. Without a cache
  directory, or with a snapshot of another format version, \<^verbatim>\<open>_initCache\<close> returns
  and leaves \<^verbatim>\<open>searchCache\<close> as the empty object it was created as. That object has no
  \<^verbatim>\<open>packages\<close>, so for every hit \<^verbatim>\<open>this.searchCache.packages[name]\<close> throws a
  TypeError: the hit goes to \<^verbatim>\<open>onFailure\<close> and no metadata is requested, where the
  claim has a full crawl.
\<close>

theorem discarded_snapshot_fails_every_hit:
  "initCache example_opts good_files new_scanner = Return new_scanner
   \<and> initCache (example_opts\<lparr>cacheDir := Some ''/var/cache''\<rparr>) stale_files new_scanner
       = Return new_scanner
   \<and> loadObject_cached (Some ''foo'') example_opts new_scanner example_fetch example_resolver
         example_eco (example_hit ''foo'')
       = ([Called (OnFailure (example_hit ''foo'') TypeError)], example_hit ''foo'', None)
   \<and> sent_requests (fst (loadObject_cached (Some ''foo'') example_opts new_scanner example_fetch
                            example_resolver example_eco (example_hit ''foo''))) = []"
  by (simp add: initCache_def initCache_try_def truthy_def example_opts_def stale_files_def
        cache_version_def new_scanner_def loadObject_cached_def on_catch_def Let_def)


subsection \<open>The worklist of ecosystems\<close>

lemma collect_start_inv: "collector_inv collect_start"
  by (simp add: collect_start_def loop_head_def collector_inv_def)

lemma concat_butlast_last: "rs \<noteq> [] \<Longrightarrow> set (concat rs) = set (concat (butlast rs)) \<union> set (last rs)"
proof -
  assume "rs \<noteq> []"
  then have "rs = butlast rs @ [last rs]" by simp
  then have "concat rs = concat (butlast rs) @ last rs"
    by (metis concat_append concat.simps(2) concat.simps(1) append_Nil2)
  then show ?thesis by simp
qed

lemma push_inv:
  assumes "collector_inv c" "perform (Push p) c = Some c1"
  shows "collector_inv c1"
proof -
  from assms(2) have p: "p < created c" "p \<notin> set (fulfilled c)"
    and c1: "c1 = c\<lparr>tasks := tasks c @ [created c], born := born c @ [length (rounds c)],
                    created := Suc (created c)\<rparr>"
    by (auto split: if_splits)
  from assms(1) have len: "length (born c) = created c"
    and dist: "distinct (concat (rounds c) @ tasks c)"
    and all: "set (concat (rounds c) @ tasks c) = {0..<created c}"
    and rb: "\<forall>j<length (rounds c). \<forall>t\<in>set (rounds c ! j). born c ! t = j"
    and tb: "\<forall>t\<in>set (tasks c). born c ! t = length (rounds c)"
    and dj: "set (fulfilled c) \<inter> set (rejected c) = {}"
    and aw: "phase c = Awaiting \<longrightarrow>
          rounds c \<noteq> [] \<and> batch c = last (rounds c)
          \<and> set (concat (butlast (rounds c))) \<subseteq> set (fulfilled c)"
    and co: "phase c = Completed \<longrightarrow> tasks c = [] \<and> set (concat (rounds c)) \<subseteq> set (fulfilled c)"
    by (simp_all add: collector_inv_def)
  have fresh: "created c \<notin> set (concat (rounds c) @ tasks c)" using all by simp
  have notdone: "phase c \<noteq> Completed"
  proof
    assume "phase c = Completed"
    with co all have "{0..<created c} \<subseteq> set (fulfilled c)" by auto
    with p show False by auto
  qed
  have old: "(born c @ [length (rounds c)]) ! t = born c ! t"
    if "t \<in> set (concat (rounds c) @ tasks c)" for t
  proof -
    from that all have "t < created c" by (simp only: atLeastLessThan_iff)
    with len show ?thesis by (simp add: nth_append)
  qed
  have 1: "length (born c1) = created c1" using len c1 by simp
  have 2: "distinct (concat (rounds c1) @ tasks c1)" using dist fresh c1 by simp
  have 3: "set (concat (rounds c1) @ tasks c1) = {0..<created c1}"
    using all c1 by (auto simp: less_Suc_eq)
  have 4: "\<forall>j<length (rounds c1). \<forall>t\<in>set (rounds c1 ! j). born c1 ! t = j"
  proof (intro allI impI ballI)
    fix j t assume j: "j < length (rounds c1)" and t: "t \<in> set (rounds c1 ! j)"
    then have "t \<in> set (concat (rounds c))" using c1 by auto
    with old [of t] have "born c1 ! t = born c ! t" using c1 by simp
    with rb j t c1 show "born c1 ! t = j" by simp
  qed
  have 5: "\<forall>t\<in>set (tasks c1). born c1 ! t = length (rounds c1)"
  proof
    fix t assume "t \<in> set (tasks c1)"
    then have "t \<in> set (tasks c) \<or> t = created c" using c1 by auto
    then show "born c1 ! t = length (rounds c1)"
    proof
      assume t: "t \<in> set (tasks c)"
      with old [of t] tb c1 show ?thesis by simp
    next
      assume "t = created c"
      with len c1 show ?thesis by (simp add: nth_append)
    qed
  qed
  have 6: "phase c1 = Awaiting \<longrightarrow>
          rounds c1 \<noteq> [] \<and> batch c1 = last (rounds c1)
          \<and> set (concat (butlast (rounds c1))) \<subseteq> set (fulfilled c1)"
    using aw c1 by simp
  have 7: "phase c1 = Completed \<longrightarrow> tasks c1 = [] \<and> set (concat (rounds c1)) \<subseteq> set (fulfilled c1)"
    using notdone c1 by simp
  have 8: "set (fulfilled c1) \<inter> set (rejected c1) = {}" using dj c1 by simp
  from 1 2 3 4 5 6 7 8 show ?thesis by (simp add: collector_inv_def)
qed

lemma settle_inv:
  assumes "collector_inv c" "perform (Fulfil p) c = Some c1 \<or> perform (Reject p) c = Some c1"
  shows "collector_inv c1"
proof -
  from assms(2) have
    "(p \<notin> set (rejected c) \<and> c1 = c\<lparr>fulfilled := p # fulfilled c\<rparr>)
     \<or> (p \<notin> set (fulfilled c) \<and> c1 = c\<lparr>rejected := p # rejected c\<rparr>)"
    by (auto split: if_splits)
  then show ?thesis
  proof
    assume "p \<notin> set (rejected c) \<and> c1 = c\<lparr>fulfilled := p # fulfilled c\<rparr>"
    with assms(1) show ?thesis by (auto simp: collector_inv_def)
  next
    assume "p \<notin> set (fulfilled c) \<and> c1 = c\<lparr>rejected := p # rejected c\<rparr>"
    with assms(1) show ?thesis by (simp add: collector_inv_def)
  qed
qed

lemma loop_head_inv:
  assumes "collector_inv c" "phase c = Awaiting" "\<forall>p\<in>set (batch c). p \<in> set (fulfilled c)"
  shows "collector_inv (loop_head c)"
proof -
  from assms(1,2) have len: "length (born c) = created c"
    and dist: "distinct (concat (rounds c) @ tasks c)"
    and all: "set (concat (rounds c) @ tasks c) = {0..<created c}"
    and rb: "\<forall>j<length (rounds c). \<forall>t\<in>set (rounds c ! j). born c ! t = j"
    and tb: "\<forall>t\<in>set (tasks c). born c ! t = length (rounds c)"
    and dj: "set (fulfilled c) \<inter> set (rejected c) = {}"
    and ne: "rounds c \<noteq> []" and bl: "batch c = last (rounds c)"
    and bf: "set (concat (butlast (rounds c))) \<subseteq> set (fulfilled c)"
    by (simp_all add: collector_inv_def)
  have fin: "set (concat (rounds c)) \<subseteq> set (fulfilled c)"
    using concat_butlast_last [OF ne] bf bl assms(3) by auto
  show ?thesis
  proof (cases "tasks c = []")
    case True
    with len dist all rb fin dj show ?thesis
      by (simp add: loop_head_def collector_inv_def)
  next
    case False
    have "\<forall>j<Suc (length (rounds c)). \<forall>t\<in>set ((rounds c @ [tasks c]) ! j). born c ! t = j"
    proof (intro allI impI ballI)
      fix j t assume "j < Suc (length (rounds c))" "t \<in> set ((rounds c @ [tasks c]) ! j)"
      then show "born c ! t = j"
        using rb tb by (cases "j < length (rounds c)") (auto simp: nth_append less_Suc_eq)
    qed
    with False len dist all fin dj show ?thesis
      by (simp add: loop_head_def collector_inv_def)
  qed
qed

lemma resume_inv:
  assumes "collector_inv c" "perform Resume c = Some c1"
  shows "collector_inv c1"
proof -
  from assms(2) have aw: "phase c = Awaiting" by (auto split: if_splits)
  show ?thesis
  proof (cases "\<exists>p\<in>set (batch c). p \<in> set (rejected c)")
    case True
    with assms(2) aw have "c1 = c\<lparr>phase := Aborted\<rparr>" by simp
    with assms(1) show ?thesis by (simp add: collector_inv_def)
  next
    case False
    with assms(2) aw have f: "\<forall>p\<in>set (batch c). p \<in> set (fulfilled c)" and "c1 = loop_head c"
      by (auto split: if_splits)
    with loop_head_inv [OF assms(1) aw f] show ?thesis by simp
  qed
qed

lemma perform_inv: "collector_inv c \<Longrightarrow> perform a c = Some c1 \<Longrightarrow> collector_inv c1"
  by (cases a) (blast intro: push_inv settle_inv resume_inv)+

lemma run_inv: "collector_inv c \<Longrightarrow> run acts c = Some c1 \<Longrightarrow> collector_inv c1"
proof (induction acts arbitrary: c)
  case Nil
  then show ?case by simp
next
  case (Cons a acts)
  from Cons.prems(2) obtain c2 where "perform a c = Some c2" "run acts c2 = Some c1"
    by (auto split: option.splits)
  with Cons.IH [of c2] perform_inv [OF Cons.prems(1)] show ?case by blast
qed



lemma classify_pushes:
  "pushed (fst (classify b rs eco reg versions latest sn object))
     = (if man_ecosystem (conclude rs latest (eco_property eco)) \<noteq> None
        then [resolve rs (reg_name reg) (conclude rs latest (eco_property eco))] else [])"
  by (simp add: classify_def Let_def)

lemma run_append:
  "run (xs @ ys) c = (case run xs c of None \<Rightarrow> None | Some c1 \<Rightarrow> run ys c1)"
  by (induction xs arbitrary: c) (simp_all split: option.splits)

text \<open>The step that drains: when the awaited round is fulfilled, resuming takes all of
  \<open>tasks\<close> into a new round, or returns when there is none.\<close>

lemma resume_drains:
  assumes "collector_inv c" "phase c = Awaiting" "set (batch c) \<subseteq> set (fulfilled c)"
  shows "perform Resume c = Some (loop_head c)"
    and "tasks (loop_head c) = []"
    and "tasks c \<noteq> [] \<Longrightarrow> rounds (loop_head c) = rounds c @ [tasks c] \<and> batch (loop_head c) = tasks c
           \<and> phase (loop_head c) = Awaiting"
    and "tasks c = [] \<Longrightarrow> rounds (loop_head c) = rounds c \<and> phase (loop_head c) = Completed"
proof -
  from assms(1) have "set (fulfilled c) \<inter> set (rejected c) = {}" by (simp add: collector_inv_def)
  with assms(3) have "\<not> (\<exists>p\<in>set (batch c). p \<in> set (rejected c))" by blast
  moreover from assms(3) have "\<forall>p\<in>set (batch c). p \<in> set (fulfilled c)" by blast
  ultimately show "perform Resume c = Some (loop_head c)" using assms(2) by simp
  show "tasks (loop_head c) = []" by (simp add: loop_head_def)
  show "tasks c \<noteq> [] \<Longrightarrow> rounds (loop_head c) = rounds c @ [tasks c] \<and> batch (loop_head c) = tasks c
           \<and> phase (loop_head c) = Awaiting"
    by (simp add: loop_head_def)
  show "tasks c = [] \<Longrightarrow> rounds (loop_head c) = rounds c \<and> phase (loop_head c) = Completed"
    by (simp add: loop_head_def)
qed

lemma fulfil_all:
  assumes "distinct ts" "set ts \<subseteq> {0..<created c}" "set ts \<inter> set (fulfilled c) = {}"
    and "set ts \<inter> set (rejected c) = {}"
  shows "run (map Fulfil ts) c = Some (c\<lparr>fulfilled := rev ts @ fulfilled c\<rparr>)"
  using assms
proof (induction ts arbitrary: c)
  case Nil
  then show ?case by simp
next
  case (Cons t ts)
  let ?c1 = "c\<lparr>fulfilled := t # fulfilled c\<rparr>"
  from Cons.prems have 1: "perform (Fulfil t) c = Some ?c1" by simp
  from Cons.prems have "run (map Fulfil ts) ?c1 = Some (?c1\<lparr>fulfilled := rev ts @ fulfilled ?c1\<rparr>)"
    by (intro Cons.IH) auto
  with 1 show ?case by simp
qed

text \<open>A run in which nothing has been rejected can always be brought to its end: let
  every promise fulfil, resume (which drains what is pending), and resume again.\<close>

lemma can_complete:
  assumes inv: "collector_inv c" and aw: "phase c = Awaiting" and rj: "rejected c = []"
  shows "\<exists>later c2. run later c = Some c2 \<and> phase c2 = Completed \<and> created c2 = created c
           \<and> rounds c2 = (if tasks c = [] then rounds c else rounds c @ [tasks c])"
proof -
  let ?ts = "filter (\<lambda>t. t \<notin> set (fulfilled c)) [0..<created c]"
  let ?c1 = "c\<lparr>fulfilled := rev ?ts @ fulfilled c\<rparr>"
  have r1: "run (map Fulfil ?ts) c = Some ?c1"
    using rj by (intro fulfil_all) auto
  have inv1: "collector_inv ?c1" using run_inv [OF inv r1] .
  from inv aw have all: "set (concat (rounds c) @ tasks c) = {0..<created c}"
    and ne: "rounds c \<noteq> []" and bl: "batch c = last (rounds c)"
    by (simp_all add: collector_inv_def)
  have full: "{0..<created c} \<subseteq> set (fulfilled ?c1)" by auto
  have "set (batch c) \<subseteq> set (concat (rounds c))"
    using concat_butlast_last [OF ne] bl by simp
  with all full have b1: "set (batch ?c1) \<subseteq> set (fulfilled ?c1)" by auto
  have aw1: "phase ?c1 = Awaiting" using aw by simp
  have r2: "perform Resume ?c1 = Some (loop_head ?c1)"
    by (rule resume_drains(1) [OF inv1 aw1 b1])
  show ?thesis
  proof (cases "tasks c = []")
    case True
    have "run (map Fulfil ?ts @ [Resume]) c = Some (loop_head ?c1)"
      using r1 r2 by (simp add: run_append)
    moreover have "phase (loop_head ?c1) = Completed" "created (loop_head ?c1) = created c"
      "rounds (loop_head ?c1) = rounds c"
      using True by (simp_all add: loop_head_def)
    ultimately show ?thesis using True by (intro exI [of _ "map Fulfil ?ts @ [Resume]"]) auto
  next
    case False
    let ?c2 = "loop_head ?c1"
    have inv2: "collector_inv ?c2" using perform_inv [OF inv1 r2] .
    have c2: "rounds ?c2 = rounds c @ [tasks c]" "batch ?c2 = tasks c" "phase ?c2 = Awaiting"
      "tasks ?c2 = []" "fulfilled ?c2 = fulfilled ?c1" "created ?c2 = created c"
      using False by (simp_all add: loop_head_def)
    have "set (tasks c) \<subseteq> {0..<created c}" using all by auto
    with full c2 have b2: "set (batch ?c2) \<subseteq> set (fulfilled ?c2)" by auto
    have r3: "perform Resume ?c2 = Some (loop_head ?c2)"
      by (rule resume_drains(1) [OF inv2 c2(3) b2])
    have "run (map Fulfil ?ts @ [Resume, Resume]) c = Some (loop_head ?c2)"
      using r1 r2 r3 by (simp add: run_append)
    moreover have "phase (loop_head ?c2) = Completed" "created (loop_head ?c2) = created c"
      "rounds (loop_head ?c2) = rounds c @ [tasks c]"
      using resume_drains(4) [OF inv2 c2(3) b2 c2(4)] c2 by (simp_all add: loop_head_def)
    ultimately show ?thesis using False
      by (intro exI [of _ "map Fulfil ?ts @ [Resume, Resume]"]) auto
  qed
qed

lemma perform_grows:
  assumes "perform a c = Some c1"
  shows "\<exists>rs bs. rounds c1 = rounds c @ rs \<and> born c1 = born c @ bs"
proof (cases a)
  case Resume
  with assms show ?thesis by (auto simp: loop_head_def split: if_splits)
qed (use assms in \<open>auto split: if_splits\<close>)

lemma run_grows:
  "run acts c = Some c1 \<Longrightarrow> \<exists>rs bs. rounds c1 = rounds c @ rs \<and> born c1 = born c @ bs"
proof (induction acts arbitrary: c)
  case Nil
  then show ?case by simp
next
  case (Cons a acts)
  from Cons.prems obtain c2 where 1: "perform a c = Some c2" and 2: "run acts c2 = Some c1"
    by (auto split: option.splits)
  from perform_grows [OF 1] Cons.IH [OF 2] show ?case by auto
qed

text \<open>Once \<^verbatim>\<open>collect\<close> has thrown, no round is started any later: what is pending
  stays pending.\<close>

lemma perform_aborted:
  assumes "phase c = Aborted" "perform a c = Some c1"
  shows "phase c1 = Aborted \<and> rounds c1 = rounds c \<and> (\<exists>ts. tasks c1 = tasks c @ ts)"
  using assms by (cases a) (auto split: if_splits)

lemma run_aborted:
  "phase c = Aborted \<Longrightarrow> run acts c = Some c1 \<Longrightarrow>
   phase c1 = Aborted \<and> rounds c1 = rounds c \<and> (\<exists>ts. tasks c1 = tasks c @ ts)"
proof (induction acts arbitrary: c)
  case Nil
  then show ?case by simp
next
  case (Cons a acts)
  from Cons.prems obtain c2 where 1: "perform a c = Some c2" and 2: "run acts c2 = Some c1"
    by (auto split: option.splits)
  from perform_aborted [OF Cons.prems(1) 1] Cons.IH [OF _ 2] show ?case by auto
qed

lemma pending_lands_in_next_round:
  assumes inv: "collector_inv c" and r: "run later c = Some c2" and co: "phase c2 = Completed"
    and t: "t \<in> set (tasks c)"
  shows "length (rounds c) < length (rounds c2) \<and> t \<in> set (rounds c2 ! length (rounds c))"
proof -
  have inv2: "collector_inv c2" using run_inv [OF inv r] .
  from run_grows [OF r] obtain rs bs where g: "rounds c2 = rounds c @ rs" "born c2 = born c @ bs"
    by blast
  from inv t have tc: "t < created c" and bt: "born c ! t = length (rounds c)"
    and len: "length (born c) = created c"
    by (auto simp: collector_inv_def)
  then have b2: "born c2 ! t = length (rounds c)" using g(2) by (simp add: nth_append)
  from inv2 have len2: "length (born c2) = created c2"
    and all2: "set (concat (rounds c2) @ tasks c2) = {0..<created c2}"
    and rb2: "\<forall>j<length (rounds c2). \<forall>u\<in>set (rounds c2 ! j). born c2 ! u = j"
    and e2: "tasks c2 = []"
    using co unfolding collector_inv_def by blast+
  from g(2) len len2 tc have "t < created c2" by (metis length_append trans_less_add1)
  with all2 e2 have "t \<in> set (concat (rounds c2))" by simp
  then obtain r2 where "r2 \<in> set (rounds c2)" "t \<in> set r2" by auto
  then obtain j where j: "j < length (rounds c2)" "t \<in> set (rounds c2 ! j)"
    by (metis in_set_conv_nth)
  with rb2 b2 have "j = length (rounds c)" by auto
  with j show ?thesis by simp
qed


text \<open>
  Claim C5 as the code has it. At every moment of a \<^verbatim>\<open>collect\<close> run the promises
  created so far are exactly those pending in \<^verbatim>\<open>this.tasks\<close> and those handed to a
  round, none of them twice, and a promise appended when \<open>j\<close> rounds had started sits
  in no round but round \<open>j\<close>, counting from 0. Whenever the awaited round is
  fulfilled, resuming hands all pending promises to a new round, or returns if there
  are none; so a run in which nothing was rejected can always be completed, and in
  every continuation that completes, each promise pending now is found in the very
  next round. When \<^verbatim>\<open>collect\<close> has returned, the worklist is empty and every
  promise ever appended has been awaited and is fulfilled. After a rejection has made
  \<^verbatim>\<open>collect\<close> throw, no further round starts and what is pending stays pending.
\<close>

theorem worklist_drained_in_rounds:
  assumes "collect_run acts = Some c"
  shows "distinct (concat (rounds c) @ tasks c)
    \<and> set (concat (rounds c) @ tasks c) = {0..<created c}
    \<and> (\<forall>j<length (rounds c). \<forall>t\<in>set (rounds c ! j). born c ! t = j)
    \<and> (\<forall>t\<in>set (tasks c). born c ! t = length (rounds c))
    \<and> (phase c = Completed \<longrightarrow>
          tasks c = []
          \<and> (\<forall>t<created c. born c ! t < length (rounds c) \<and> t \<in> set (rounds c ! (born c ! t))
                 \<and> t \<in> set (fulfilled c)))
    \<and> (phase c = Awaiting \<and> set (batch c) \<subseteq> set (fulfilled c) \<longrightarrow>
          perform Resume c = Some (loop_head c) \<and> tasks (loop_head c) = []
          \<and> (if tasks c = [] then phase (loop_head c) = Completed \<and> rounds (loop_head c) = rounds c
              else phase (loop_head c) = Awaiting \<and> rounds (loop_head c) = rounds c @ [tasks c]))
    \<and> (phase c = Awaiting \<and> rejected c = [] \<longrightarrow>
          (\<exists>later c2. collect_run (acts @ later) = Some c2 \<and> phase c2 = Completed
              \<and> created c2 = created c
              \<and> rounds c2 = (if tasks c = [] then rounds c else rounds c @ [tasks c])))
    \<and> (\<forall>later c2. collect_run (acts @ later) = Some c2 \<and> phase c2 = Completed \<longrightarrow>
          (\<forall>t\<in>set (tasks c). length (rounds c) < length (rounds c2)
                 \<and> t \<in> set (rounds c2 ! length (rounds c))))
    \<and> (phase c = Aborted \<longrightarrow>
          (\<forall>later c2. collect_run (acts @ later) = Some c2 \<longrightarrow>
              phase c2 = Aborted \<and> rounds c2 = rounds c \<and> (\<exists>ts. tasks c2 = tasks c @ ts)))"
proof -
  have r: "run acts collect_start = Some c" using assms by (simp add: collect_run_def)
  have inv: "collector_inv c" using run_inv [OF collect_start_inv r] .
  have ext: "collect_run (acts @ later) = run later c" for later
    using r by (simp add: collect_run_def run_append)
  from inv have dist: "distinct (concat (rounds c) @ tasks c)"
    and all: "set (concat (rounds c) @ tasks c) = {0..<created c}"
    and rb: "\<forall>j<length (rounds c). \<forall>t\<in>set (rounds c ! j). born c ! t = j"
    and tb: "\<forall>t\<in>set (tasks c). born c ! t = length (rounds c)"
    and co: "phase c = Completed \<longrightarrow> tasks c = [] \<and> set (concat (rounds c)) \<subseteq> set (fulfilled c)"
    unfolding collector_inv_def by blast+
  have fin: "tasks c = []
          \<and> (\<forall>t<created c. born c ! t < length (rounds c) \<and> t \<in> set (rounds c ! (born c ! t))
                 \<and> t \<in> set (fulfilled c))" if "phase c = Completed"
  proof (intro conjI allI impI)
    from that co show e: "tasks c = []" by simp
    fix t assume "t < created c"
    with all e have t: "t \<in> set (concat (rounds c))" by simp
    then obtain r where "r \<in> set (rounds c)" "t \<in> set r" by auto
    then obtain j where j: "j < length (rounds c)" "t \<in> set (rounds c ! j)"
      by (metis in_set_conv_nth)
    with rb have "born c ! t = j" by simp
    with j show "born c ! t < length (rounds c)" "t \<in> set (rounds c ! (born c ! t))" by simp_all
    from t that co show "t \<in> set (fulfilled c)" by auto
  qed
  have drain: "perform Resume c = Some (loop_head c) \<and> tasks (loop_head c) = []
          \<and> (if tasks c = [] then phase (loop_head c) = Completed \<and> rounds (loop_head c) = rounds c
              else phase (loop_head c) = Awaiting \<and> rounds (loop_head c) = rounds c @ [tasks c])"
    if "phase c = Awaiting \<and> set (batch c) \<subseteq> set (fulfilled c)"
    using that resume_drains [OF inv] by simp
  have compl: "\<exists>later c2. collect_run (acts @ later) = Some c2 \<and> phase c2 = Completed
              \<and> created c2 = created c
              \<and> rounds c2 = (if tasks c = [] then rounds c else rounds c @ [tasks c])"
    if "phase c = Awaiting \<and> rejected c = []"
    using that can_complete [OF inv] by (simp only: ext)
  have next_round: "\<forall>t\<in>set (tasks c). length (rounds c) < length (rounds c2)
                 \<and> t \<in> set (rounds c2 ! length (rounds c))"
    if "collect_run (acts @ later) = Some c2 \<and> phase c2 = Completed" for later c2
    using that pending_lands_in_next_round [OF inv] by (simp only: ext) blast
  have stuck: "phase c2 = Aborted \<and> rounds c2 = rounds c \<and> (\<exists>ts. tasks c2 = tasks c @ ts)"
    if "phase c = Aborted" "collect_run (acts @ later) = Some c2" for later c2
    using that run_aborted [of c later c2] by (simp only: ext)
  from dist all rb tb fin drain compl next_round stuck show ?thesis by blast
qed

theorem worklist_drained_in_rounds_witness:
  "(\<exists>c. collect_run [Push 0, Push 0, Fulfil 0] = Some c
       \<and> phase c = Awaiting \<and> set (batch c) \<subseteq> set (fulfilled c) \<and> rejected c = []
       \<and> tasks c = [1, 2]
       \<and> perform Resume c = Some (loop_head c) \<and> rounds (loop_head c) = [[0], [1, 2]]
       \<and> (\<exists>later c2. collect_run ([Push 0, Push 0, Fulfil 0] @ later) = Some c2
              \<and> phase c2 = Completed \<and> rounds c2 = [[0], [1, 2]]))
   \<and> (\<exists>c. collect_run [Push 0, Push 0, Fulfil 0, Resume, Push 1, Fulfil 1, Fulfil 2, Resume, Fulfil 3, Resume]
          = Some c
       \<and> phase c = Completed \<and> rounds c = [[0], [1, 2], [3]] \<and> born c = [0, 1, 1, 2]
       \<and> tasks c = [] \<and> distinct (concat (rounds c) @ tasks c)
       \<and> (\<forall>t<created c. t \<in> set (rounds c ! (born c ! t))))
   \<and> (\<exists>c c2. collect_run [Push 0, Reject 0, Resume] = Some c \<and> phase c = Aborted
       \<and> collect_run ([Push 0, Reject 0, Resume] @ [Push 1]) = Some c2
       \<and> phase c2 = Aborted \<and> rounds c2 = rounds c \<and> tasks c2 = [1, 2])"
proof -
  let ?a1 = "[Push 0, Push 0, Fulfil 0]"
  obtain c1 where c1: "collect_run ?a1 = Some c1" and
    v1: "phase c1 = Awaiting" "set (batch c1) \<subseteq> set (fulfilled c1)" "rejected c1 = []"
      "tasks c1 = [1, 2]" "rounds c1 = [[0]]"
    by (simp add: collect_run_def collect_start_def loop_head_def)
  from worklist_drained_in_rounds [OF c1] v1
  have d: "perform Resume c1 = Some (loop_head c1)" "rounds (loop_head c1) = [[0], [1, 2]]"
    and e: "\<exists>later c2. collect_run (?a1 @ later) = Some c2 \<and> phase c2 = Completed
              \<and> rounds c2 = [[0], [1, 2]]"
    by auto
  let ?acts = "[Push 0, Push 0, Fulfil 0, Resume, Push 1, Fulfil 1, Fulfil 2, Resume, Fulfil 3, Resume]"
  obtain c where c: "collect_run ?acts = Some c" and
    v: "phase c = Completed" "rounds c = [[0], [1, 2], [3]]" "born c = [0, 1, 1, 2]"
    by (simp add: collect_run_def collect_start_def loop_head_def)
  from worklist_drained_in_rounds [OF c] v(1)
  have "tasks c = []" "distinct (concat (rounds c) @ tasks c)"
    "\<forall>t<created c. t \<in> set (rounds c ! (born c ! t))"
    by blast+
  then have A: "\<exists>c. collect_run ?acts = Some c
       \<and> phase c = Completed \<and> rounds c = [[0], [1, 2], [3]] \<and> born c = [0, 1, 1, 2]
       \<and> tasks c = [] \<and> distinct (concat (rounds c) @ tasks c)
       \<and> (\<forall>t<created c. t \<in> set (rounds c ! (born c ! t)))"
    using c v by blast
  have B: "\<exists>c. collect_run ?a1 = Some c
       \<and> phase c = Awaiting \<and> set (batch c) \<subseteq> set (fulfilled c) \<and> rejected c = []
       \<and> tasks c = [1, 2]
       \<and> perform Resume c = Some (loop_head c) \<and> rounds (loop_head c) = [[0], [1, 2]]
       \<and> (\<exists>later c2. collect_run (?a1 @ later) = Some c2
              \<and> phase c2 = Completed \<and> rounds c2 = [[0], [1, 2]])"
    using c1 v1 d e by blast
  let ?a3 = "[Push 0, Reject 0, Resume]"
  obtain c3 where c3: "collect_run ?a3 = Some c3" and v3: "phase c3 = Aborted"
    by (simp add: collect_run_def collect_start_def loop_head_def)
  obtain c4 where c4: "collect_run (?a3 @ [Push 1]) = Some c4" and v4: "tasks c4 = [1, 2]"
    by (simp add: collect_run_def collect_start_def loop_head_def)
  from worklist_drained_in_rounds [OF c3] v3 c4
  have "phase c4 = Aborted \<and> rounds c4 = rounds c3" by blast
  with c3 v3 c4 v4 have C: "\<exists>c c2. collect_run ?a3 = Some c \<and> phase c = Aborted
       \<and> collect_run (?a3 @ [Push 1]) = Some c2
       \<and> phase c2 = Aborted \<and> rounds c2 = rounds c \<and> tasks c2 = [1, 2]"
    by blast
  from B A C show ?thesis by (intro conjI)
qed

text \<open>
  Claim C5 as stated fails when a promise rejects. The root ecosystem appends two
  sub-ecosystems and is fulfilled; they form the second round. The search of the first
  fails, so its promise rejects, while the second appends a third sub-ecosystem.
  \<^verbatim>\<open>Promise.all\<close> rejects, \<^verbatim>\<open>collect\<close> throws, and the promise appended during the
  second round is left in \<^verbatim>\<open>this.tasks\<close>: no round ever takes it.
\<close>

theorem worklist_abort_counterexample:
  "collect_run [Push 0, Push 0, Fulfil 0, Resume, Reject 1, Push 2, Resume]
     = Some \<lparr>tasks = [3], batch = [1, 2], rounds = [[0], [1, 2]], created = 4, fulfilled = [0],
             rejected = [1], born = [0, 1, 1, 2], phase = Aborted\<rparr>
   \<and> perform Resume \<lparr>tasks = [3], batch = [1, 2], rounds = [[0], [1, 2]], created = 4,
                      fulfilled = [0], rejected = [1], born = [0, 1, 1, 2], phase = Aborted\<rparr> = None"
  by (simp add: collect_run_def collect_start_def loop_head_def)


subsection \<open>Conflicts between shortnames\<close>

lemma set_analyze_onSuccess:
  "set (analyze_onSuccess a acc) = (if verified a then insert (shortname a) (set acc) else set acc)"
  by (simp add: analyze_onSuccess_def)

lemma analyze_shortnames:
  "sn \<in> set (fold analyze_onSuccess succeeded acc)
     \<longleftrightarrow> sn \<in> set acc \<or> (\<exists>v\<in>set succeeded. verified v \<and> shortname v = sn)"
proof (induction succeeded arbitrary: acc)
  case Nil
  then show ?case by simp
next
  case (Cons a succeeded)
  have "sn \<in> set (fold analyze_onSuccess (a # succeeded) acc)
          \<longleftrightarrow> sn \<in> set (analyze_onSuccess a acc) \<or> (\<exists>v\<in>set succeeded. verified v \<and> shortname v = sn)"
    using Cons.IH [of "analyze_onSuccess a acc"] by simp
  then show ?case by (auto simp: set_analyze_onSuccess)
qed

lemma analyze_nth:
  assumes "i < length objs"
  shows "analyze succeeded objs ! i
           = (if verified (objs ! i) \<or> \<not> (\<exists>v\<in>set succeeded. verified v \<and> shortname v = shortname (objs ! i))
              then objs ! i else (objs ! i)\<lparr>ignored := True\<rparr>)"
  using assms analyze_shortnames [where succeeded = succeeded and acc = "[]"]
  by (simp add: analyze_def Let_def)

lemma analyze_onSuccess_relabel:
  "analyze_onSuccess (object\<lparr>ecosystem := e\<rparr>) acc = analyze_onSuccess object acc"
  by (simp add: analyze_onSuccess_def)

lemma fold_analyze_relabel:
  "fold analyze_onSuccess (map (\<lambda>object. object\<lparr>ecosystem := h (ecosystem object)\<rparr>) xs) acc
     = fold analyze_onSuccess xs acc"
  by (induction xs arbitrary: acc) (simp_all add: analyze_onSuccess_relabel)

lemma analyze_relabel:
  "analyze (map (\<lambda>object. object\<lparr>ecosystem := h1 (ecosystem object)\<rparr>) succeeded)
           (map (\<lambda>object. object\<lparr>ecosystem := h2 (ecosystem object)\<rparr>) objs)
     = map (\<lambda>object. object\<lparr>ecosystem := h2 (ecosystem object)\<rparr>) (analyze succeeded objs)"
  by (simp add: analyze_def Let_def fold_analyze_relabel)

text \<open>
  Claim C3 as the code has it. The pass compares shortnames over the whole catalog and
  never looks at the ecosystem: its result is the same however the packages are spread
  over ecosystems. It keeps the list of objects; it leaves a verified package as it is;
  it sets \<^verbatim>\<open>ignored\<close> on every unverified package whose shortname is the shortname of
  a verified package that \<^verbatim>\<open>onSuccess\<close> was called with, also when that package
  belongs to another ecosystem; and a package whose shortname no such verified package
  has is left as it is, so that among unverified packages sharing a shortname none is
  preferred.
\<close>

theorem analyze_ignores_unverified_duplicates:
  "length (analyze succeeded objs) = length objs
   \<and> (\<forall>i<length objs.
        (verified (objs ! i) \<longrightarrow> analyze succeeded objs ! i = objs ! i)
        \<and> (\<not> verified (objs ! i)
             \<and> (\<exists>v\<in>set succeeded. verified v \<and> shortname v = shortname (objs ! i))
             \<longrightarrow> analyze succeeded objs ! i = (objs ! i)\<lparr>ignored := True\<rparr>)
        \<and> (\<not> verified (objs ! i)
             \<and> (\<exists>v\<in>set succeeded. verified v \<and> shortname v = shortname (objs ! i)
                    \<and> ecosystem v \<noteq> ecosystem (objs ! i))
             \<longrightarrow> ignored (analyze succeeded objs ! i))
        \<and> ((\<forall>v\<in>set succeeded. verified v \<longrightarrow> shortname v \<noteq> shortname (objs ! i))
             \<longrightarrow> analyze succeeded objs ! i = objs ! i))
   \<and> analyze (map (\<lambda>object. object\<lparr>ecosystem := h1 (ecosystem object)\<rparr>) succeeded)
              (map (\<lambda>object. object\<lparr>ecosystem := h2 (ecosystem object)\<rparr>) objs)
       = map (\<lambda>object. object\<lparr>ecosystem := h2 (ecosystem object)\<rparr>) (analyze succeeded objs)"
proof (intro conjI allI impI)
  show "length (analyze succeeded objs) = length objs" by (simp add: analyze_def Let_def)
next
  fix i assume "i < length objs" "verified (objs ! i)"
  then show "analyze succeeded objs ! i = objs ! i" by (simp add: analyze_nth)
next
  fix i assume "i < length objs"
    "\<not> verified (objs ! i) \<and> (\<exists>v\<in>set succeeded. verified v \<and> shortname v = shortname (objs ! i))"
  then show "analyze succeeded objs ! i = (objs ! i)\<lparr>ignored := True\<rparr>" by (simp add: analyze_nth)
next
  fix i assume i: "i < length objs" and
    h: "\<not> verified (objs ! i)
        \<and> (\<exists>v\<in>set succeeded. verified v \<and> shortname v = shortname (objs ! i)
               \<and> ecosystem v \<noteq> ecosystem (objs ! i))"
  then have "\<exists>v\<in>set succeeded. verified v \<and> shortname v = shortname (objs ! i)" by blast
  with i h show "ignored (analyze succeeded objs ! i)" by (simp add: analyze_nth)
next
  fix i assume "i < length objs" "\<forall>v\<in>set succeeded. verified v \<longrightarrow> shortname v \<noteq> shortname (objs ! i)"
  then show "analyze succeeded objs ! i = objs ! i" by (auto simp: analyze_nth)
next
  show "analyze (map (\<lambda>object. object\<lparr>ecosystem := h1 (ecosystem object)\<rparr>) succeeded)
              (map (\<lambda>object. object\<lparr>ecosystem := h2 (ecosystem object)\<rparr>) objs)
       = map (\<lambda>object. object\<lparr>ecosystem := h2 (ecosystem object)\<rparr>) (analyze succeeded objs)"
    by (rule analyze_relabel)
qed

lemma claimant_simps:
  "verified (claimant n v) = v" "shortname (claimant n v) = Some ''foo''"
  "ecosystem (claimant n v) = Some ''cordis''" "ignored (claimant n v) = False"
  by (simp_all add: claimant_def example_hit_def)

lemma claimant_in_simps:
  "verified (claimant_in eco n v) = v" "shortname (claimant_in eco n v) = Some ''foo''"
  "ecosystem (claimant_in eco n v) = Some eco" "ignored (claimant_in eco n v) = False"
  by (simp_all add: claimant_in_def example_hit_def)

theorem analyze_ignores_unverified_duplicates_witness:
  "verified (claimant_in ''cordis'' ''a'' True) \<and> \<not> verified (claimant_in ''other'' ''b'' False)
   \<and> shortname (claimant_in ''cordis'' ''a'' True) = shortname (claimant_in ''other'' ''b'' False)
   \<and> ecosystem (claimant_in ''cordis'' ''a'' True) \<noteq> ecosystem (claimant_in ''other'' ''b'' False)
   \<and> analyze [claimant_in ''cordis'' ''a'' True, claimant_in ''other'' ''b'' False]
              [claimant_in ''cordis'' ''a'' True, claimant_in ''other'' ''b'' False] ! 0
       = claimant_in ''cordis'' ''a'' True
   \<and> analyze [claimant_in ''cordis'' ''a'' True, claimant_in ''other'' ''b'' False]
              [claimant_in ''cordis'' ''a'' True, claimant_in ''other'' ''b'' False] ! 1
       = (claimant_in ''other'' ''b'' False)\<lparr>ignored := True\<rparr>
   \<and> analyze [] [claimant_in ''other'' ''b'' False] ! 0 = claimant_in ''other'' ''b'' False"
proof -
  let ?a = "claimant_in ''cordis'' ''a'' True" and ?b = "claimant_in ''other'' ''b'' False"
  let ?objs = "[?a, ?b]"
  have v: "verified ?a" "\<not> verified ?b" "shortname ?a = shortname ?b" "ecosystem ?a \<noteq> ecosystem ?b"
    by (simp_all add: claimant_in_simps)
  have 0: "(0::nat) < length ?objs" "verified (?objs ! 0)" using v by simp_all
  have 1: "(1::nat) < length ?objs" "\<not> verified (?objs ! 1)"
    "\<exists>w\<in>set ?objs. verified w \<and> shortname w = shortname (?objs ! 1)"
    using v by simp_all
  from analyze_ignores_unverified_duplicates [of ?objs ?objs] 0
  have a: "analyze ?objs ?objs ! 0 = ?objs ! 0" by blast
  from analyze_ignores_unverified_duplicates [of ?objs ?objs] 1
  have b: "analyze ?objs ?objs ! 1 = (?objs ! 1)\<lparr>ignored := True\<rparr>" by blast
  have 2: "(0::nat) < length [?b]" "\<forall>w\<in>set []. verified w \<longrightarrow> shortname w \<noteq> shortname ([?b] ! 0)"
    by simp_all
  from analyze_ignores_unverified_duplicates [of "[]" "[?b]"] 2
  have c: "analyze [] [?b] ! 0 = [?b] ! 0" by blast
  from v a b c show ?thesis by simp
qed

text \<open>
  Claim C3 as stated fails in two ways. With no verified claimant, two unverified
  packages of one ecosystem with the same shortname, both handed to \<^verbatim>\<open>onSuccess\<close>,
  both end with \<^verbatim>\<open>ignored\<close> unset, where the claim keeps the first and marks the
  second. And with a verified claimant of the shortname in ecosystem \<^verbatim>\<open>cordis\<close> only,
  two unverified packages sharing it in ecosystem \<^verbatim>\<open>other\<close> are both marked, where
  the claim, which resolves conflicts within one ecosystem, keeps the first of them.
\<close>

theorem analyze_first_come_counterexample:
  "shortname (claimant ''a'' False) = shortname (claimant ''b'' False)
   \<and> ecosystem (claimant ''a'' False) = ecosystem (claimant ''b'' False)
   \<and> map ignored (analyze [claimant ''a'' False, claimant ''b'' False]
                           [claimant ''a'' False, claimant ''b'' False]) = [False, False]
   \<and> map ecosystem [claimant_in ''cordis'' ''v'' True, claimant_in ''other'' ''c'' False,
                      claimant_in ''other'' ''d'' False]
       = [Some ''cordis'', Some ''other'', Some ''other'']
   \<and> map ignored (analyze [claimant_in ''cordis'' ''v'' True, claimant_in ''other'' ''c'' False,
                            claimant_in ''other'' ''d'' False]
                           [claimant_in ''cordis'' ''v'' True, claimant_in ''other'' ''c'' False,
                            claimant_in ''other'' ''d'' False]) = [False, True, True]"
  by (simp add: analyze_def analyze_onSuccess_def claimant_simps claimant_in_simps)

subsection \<open>The weighted score\<close>

lemma num_NaN [simp]:
  "num_add ar NaN b = NaN" "num_add ar a NaN = NaN"
  "num_mul ar NaN b = NaN" "num_mul ar a NaN = NaN"
  "num_sub ar NaN b = NaN" "num_sub ar a NaN = NaN"
  by (simp_all add: num_add_def num_mul_def num_sub_def split: number.splits)

lemma fold_settle_keeps_NaN:
  "final sc = NaN \<Longrightarrow> final (fold (settle_subject ar results) order sc) = NaN"
  by (induction order arbitrary: sc) (simp_all add: settle_subject_def Let_def)

lemma fold_settle_poisoned:
  "s \<in> set order \<Longrightarrow> awaited results s = NaN \<Longrightarrow>
   final (fold (settle_subject ar results) order sc) = NaN"
proof (induction order arbitrary: sc)
  case Nil
  then show ?case by simp
next
  case (Cons a order)
  show ?case
  proof (cases "a = s")
    case True
    with Cons.prems(2) have "final (settle_subject ar results a sc) = NaN"
      by (simp add: settle_subject_def Let_def)
    then show ?thesis using fold_settle_keeps_NaN by simp
  next
    case False
    with Cons show ?thesis by simp
  qed
qed

lemma fold_settle_detail:
  "detail (fold (settle_subject ar results) order sc) s
     = (if s \<in> set order then Some (awaited results s) else detail sc s)"
  by (induction order arbitrary: sc) (auto simp: settle_subject_def Let_def)

lemma quality_unmeasured: "installSize object = None \<Longrightarrow> quality ar object = Return NaN"
  by (simp add: quality_def to_number_def math_max_def)

lemma quality_never_throws: "\<exists>v. quality ar object = Return v"
  by (simp add: quality_def split: number.splits)

text \<open>
  When the size was not measured, the quality evaluator returns \<^verbatim>\<open>NaN\<close> without
  throwing, and \<^verbatim>\<open>NaN\<close> is what \<^verbatim>\<open>score.final\<close> and \<^verbatim>\<open>rating\<close> become, in every
  order of settling and however results are rounded.
\<close>

lemma unmeasured_poisons_score:
  assumes "installSize item = None" "Quality \<in> set order"
  shows "final (score (evaluate_score ar (score_tasks ar others item) order item)) = NaN"
    and "rating (evaluate_score ar (score_tasks ar others item) order item) = Some NaN"
proof -
  have "awaited (score_tasks ar others item) Quality = NaN"
    using quality_unmeasured [OF assms(1)] by (simp add: awaited_def score_tasks_def)
  with assms(2) have
    "final (fold (settle_subject ar (score_tasks ar others item)) order ((score item)\<lparr>final := Finite 0\<rparr>)) = NaN"
    by (rule fold_settle_poisoned)
  then show "final (score (evaluate_score ar (score_tasks ar others item) order item)) = NaN"
    "rating (evaluate_score ar (score_tasks ar others item) order item) = Some NaN"
    by (simp_all add: evaluate_score_def Let_def)
qed

text \<open>
  With exact arithmetic and sub-scores that are numbers, the loop computes the weighted
  sum of the claim, where an evaluator that threw counts 0.
\<close>

lemma fold_settle_exact:
  assumes "\<And>s. awaited results s = Finite (v s)" "final sc = Finite x"
  shows "final (fold (settle_subject exact_arith results) order sc)
           = Finite (x + sum_list (map (\<lambda>s. (case s of Maintenance \<Rightarrow> 0.3 | Popularity \<Rightarrow> 0.5
                                                | Quality \<Rightarrow> 0.2) * v s) order))"
  using assms(2)
proof (induction order arbitrary: sc x)
  case Nil
  then show ?case by simp
next
  case (Cons a order)
  have "final (settle_subject exact_arith results a sc)
          = Finite (x + (case a of Maintenance \<Rightarrow> 0.3 | Popularity \<Rightarrow> 0.5 | Quality \<Rightarrow> 0.2) * v a)"
    using Cons.prems assms(1) [of a]
    by (cases a) (simp_all add: settle_subject_def Let_def num_add_def num_mul_def weights_def
                     exact_arith_def)
  from Cons.IH [OF this] show ?case by (simp add: add.assoc)
qed

lemma score_exact:
  assumes "\<And>s. awaited results s = Finite (v s)" "distinct order" "set order = set subjects"
  shows "final (score (evaluate_score exact_arith results order item))
           = Finite (0.3 * v Maintenance + 0.5 * v Popularity + 0.2 * v Quality)"
proof -
  let ?f = "\<lambda>s. (case s of Maintenance \<Rightarrow> 0.3 | Popularity \<Rightarrow> 0.5 | Quality \<Rightarrow> 0.2) * v s"
  have "sum_list (map ?f order) = sum ?f (set order)"
    using assms(2) by (rule sum_list_distinct_conv_sum_set)
  also have "\<dots> = sum ?f {Maintenance, Popularity, Quality}"
    using assms(3) by (simp add: subjects_def)
  also have "\<dots> = 0.3 * v Maintenance + 0.5 * v Popularity + 0.2 * v Quality" by simp
  finally have "sum_list (map ?f order) = 0.3 * v Maintenance + 0.5 * v Popularity + 0.2 * v Quality" .
  then show ?thesis
    using fold_settle_exact [of results v "(score item)\<lparr>final := Finite 0\<rparr>" 0 order, OF assms(1)]
    by (simp add: evaluate_score_def Let_def)
qed

text \<open>
  Claim C9, which the code breaks when the bundle step fails. For an item whose
  \<^verbatim>\<open>installSize\<close> was never measured, \<^verbatim>\<open>evaluators.quality\<close> returns \<^verbatim>\<open>NaN\<close>: nothing
  in it throws, so neither its own \<^verbatim>\<open>catch\<close> nor the one of the scoring loop puts 0 in
  its place. The other two evaluators return 0 and 0.5, yet \<^verbatim>\<open>score.final\<close> and
  \<^verbatim>\<open>rating\<close> are \<^verbatim>\<open>NaN\<close>, whatever the rounding, where the claim has the failure of
  one evaluator replaced by a neutral value and the final score and rating computed.
\<close>

theorem unmeasured_size_makes_score_nan:
  "\<forall>ar. quality ar unmeasured_item = Return NaN
     \<and> detail (score (evaluate_score ar (score_tasks ar example_others unmeasured_item)
                        [Popularity, Maintenance, Quality] unmeasured_item)) Popularity
         = Some (Finite 0.5)
     \<and> final (score (evaluate_score ar (score_tasks ar example_others unmeasured_item)
                        [Popularity, Maintenance, Quality] unmeasured_item)) = NaN
     \<and> rating (evaluate_score ar (score_tasks ar example_others unmeasured_item)
                  [Popularity, Maintenance, Quality] unmeasured_item) = Some NaN"
proof
  fix ar
  have i: "installSize unmeasured_item = None" by (simp add: unmeasured_item_def)
  have q: "Quality \<in> set [Popularity, Maintenance, Quality]" by simp
  have d: "detail (score (evaluate_score ar (score_tasks ar example_others unmeasured_item)
                        [Popularity, Maintenance, Quality] unmeasured_item)) Popularity
         = Some (Finite 0.5)"
    by (simp add: evaluate_score_def Let_def settle_subject_def awaited_def score_tasks_def
          example_others_def)
  from quality_unmeasured [OF i, of ar] unmeasured_poisons_score [OF i q, of ar example_others] d
  show "quality ar unmeasured_item = Return NaN
     \<and> detail (score (evaluate_score ar (score_tasks ar example_others unmeasured_item)
                        [Popularity, Maintenance, Quality] unmeasured_item)) Popularity
         = Some (Finite 0.5)
     \<and> final (score (evaluate_score ar (score_tasks ar example_others unmeasured_item)
                        [Popularity, Maintenance, Quality] unmeasured_item)) = NaN
     \<and> rating (evaluate_score ar (score_tasks ar example_others unmeasured_item)
                  [Popularity, Maintenance, Quality] unmeasured_item) = Some NaN"
    by simp
qed

end
